theory Spec2Isabelle
  imports Complex_Main "HOL-Library.Word"
begin

section \<open>Interstate '76 GEO importer: decoder, mesh builder, batch import\<close>

text \<open>
  A shallow embedding of \<^verbatim>\<open>i76_geo_importer_batch.py\<close>. A file is the list of its
  bytes; the open file object \<^verbatim>\<open>f\<close> is the list of bytes not read yet, every reader
  takes it and returns it shortened. A Python exception is a value of \<open>error\<close> on the
  left of a sum. Python floats are a type parameter \<open>'f\<close>: the decoder obtains them from
  four bytes by \<^verbatim>\<open>struct.unpack("<f", ...)\<close>, which is the parameter \<open>unpack_f\<close>, and the
  builder multiplies them by the scale.
\<close>

subsection \<open>Binary helpers\<close>

type_synonym byte = "8 word"
type_synonym bytes = "byte list"

datatype error =
    FileNotFound                 \<comment> \<open>\<^verbatim>\<open>open(path, "rb")\<close> on a path that is no file\<close>
  | TooSmall                     \<comment> \<open>\<^verbatim>\<open>ValueError("File too small to be a GEO")\<close>\<close>
  | UnreasonableCounts nat nat   \<comment> \<open>\<^verbatim>\<open>ValueError(f"Unreasonable counts v={vct} f={fct}")\<close>\<close>
  | StructError                  \<comment> \<open>\<^verbatim>\<open>struct.error\<close>: unpack of fewer than 4 bytes\<close>
  | IndexError                   \<comment> \<open>\<^verbatim>\<open>IndexError\<close>: list index out of range\<close>

type_synonym 'a reader = "bytes \<Rightarrow> error + ('a \<times> bytes)"

text \<open>\<^verbatim>\<open>f.read(n)\<close>: up to \<open>n\<close> bytes, fewer at the end of the file, never an error.\<close>

definition read :: "nat \<Rightarrow> bytes \<Rightarrow> bytes \<times> bytes" where
  "read n s = (take n s, drop n s)"

text \<open>The value of a little-endian byte string, as \<^verbatim>\<open>struct.unpack("<I", b)\<close> computes it.\<close>

fun le_nat :: "bytes \<Rightarrow> nat" where
  "le_nat [] = 0"
| "le_nat (b # bs) = unat b + 256 * le_nat bs"

text \<open>Sequencing of two readers: the first exception raised ends the run.\<close>

definition thenr :: "'a reader \<Rightarrow> ('a \<Rightarrow> 'b reader) \<Rightarrow> 'b reader" where
  "thenr r g s = (case r s of Inl e \<Rightarrow> Inl e | Inr (x, s') \<Rightarrow> g x s')"

definition returnr :: "'a \<Rightarrow> 'a reader" where
  "returnr x s = Inr (x, s)"

text \<open>\<^verbatim>\<open>[r(f) for _ in range(n)]\<close>\<close>

primrec repeat :: "nat \<Rightarrow> 'a reader \<Rightarrow> 'a list reader" where
  "repeat 0 r = returnr []"
| "repeat (Suc n) r = thenr r (\<lambda>x. thenr (repeat n r) (\<lambda>xs. returnr (x # xs)))"

text \<open>\<^verbatim>\<open>def rU32(f): return struct.unpack("<I", f.read(4))[0]\<close>\<close>

definition rU32 :: "nat reader" where
  "rU32 s = (case read 4 s of (b, s') \<Rightarrow>
               if length b = 4 then Inr (le_nat b, s') else Inl StructError)"

text \<open>\<^verbatim>\<open>def rF32(f): return struct.unpack("<f", f.read(4))[0]\<close>\<close>

definition rF32 :: "(bytes \<Rightarrow> 'f) \<Rightarrow> 'f reader" where
  "rF32 unpack_f s = (case read 4 s of (b, s') \<Rightarrow>
               if length b = 4 then Inr (unpack_f b, s') else Inl StructError)"

text \<open>
  \<^verbatim>\<open>b.split(b"\x00", 1)[0].decode("ascii", "ignore")\<close>: the bytes before the first
  zero byte, those above 127 dropped, each of the others the character of its code.
\<close>

definition decode_ascii_ignore :: "bytes \<Rightarrow> string" where
  "decode_ascii_ignore b = map (\<lambda>c. char_of (unat c)) (filter (\<lambda>c. unat c < 128) b)"

definition cstr :: "bytes \<Rightarrow> string" where
  "cstr b = decode_ascii_ignore (takeWhile (\<lambda>c. c \<noteq> 0) b)"

text \<open>\<^verbatim>\<open>def rCSTR(f, n): return f.read(n).split(b"\x00", 1)[0].decode("ascii", "ignore")\<close>\<close>

definition rCSTR :: "nat \<Rightarrow> string reader" where
  "rCSTR n s = (case read n s of (b, s') \<Rightarrow> Inr (cstr b, s'))"

text \<open>A bare \<^verbatim>\<open>f.read(n)\<close> whose result is dropped.\<close>

definition skip :: "nat \<Rightarrow> unit reader" where
  "skip n s = (case read n s of (b, s') \<Rightarrow> Inr ((), s'))"

text \<open>\<^verbatim>\<open>def read_vec3(f): return (rF32(f), rF32(f), rF32(f))\<close>\<close>

definition read_vec3 :: "(bytes \<Rightarrow> 'f) \<Rightarrow> ('f \<times> 'f \<times> 'f) reader" where
  "read_vec3 unpack_f =
     thenr (rF32 unpack_f) (\<lambda>x. thenr (rF32 unpack_f) (\<lambda>y. thenr (rF32 unpack_f) (\<lambda>z.
       returnr (x, y, z))))"

text \<open>\<^verbatim>\<open>def read_vec2(f): return (rF32(f), rF32(f))\<close>\<close>

definition read_vec2 :: "(bytes \<Rightarrow> 'f) \<Rightarrow> ('f \<times> 'f) reader" where
  "read_vec2 unpack_f =
     thenr (rF32 unpack_f) (\<lambda>u. thenr (rF32 unpack_f) (\<lambda>v. returnr (u, v)))"

subsection \<open>The decoder\<close>

text \<open>A corner \<^verbatim>\<open>(vi, ni, (u, v))\<close>, a face \<^verbatim>\<open>{"tex": tex, "refs": refs}\<close> and the
  decoded model \<^verbatim>\<open>{"name": name, "verts": verts, "faces": faces}\<close>.\<close>

type_synonym 'f ref = "nat \<times> nat \<times> ('f \<times> 'f)"

record 'f face =
  tex :: string
  refs :: "'f ref list"

record 'f geo =
  name :: string
  verts :: "('f \<times> 'f \<times> 'f) list"
  faces :: "'f face list"

text \<open>\<^verbatim>\<open>os.path.basename(path)\<close> (POSIX): what follows the last slash.\<close>

definition basename :: "string \<Rightarrow> string" where
  "basename path = rev (takeWhile (\<lambda>c. c \<noteq> CHR ''/'') (rev path))"

text \<open>Python's \<^verbatim>\<open>s or d\<close> on strings: \<open>d\<close> when \<open>s\<close> is empty.\<close>

definition or_else :: "string \<Rightarrow> string \<Rightarrow> string" where
  "or_else s d = (if s = [] then d else s)"

text \<open>One corner record: lines 64 to 67.\<close>

definition read_ref :: "(bytes \<Rightarrow> 'f) \<Rightarrow> 'f ref reader" where
  "read_ref unpack_f =
     thenr rU32 (\<lambda>vi. thenr rU32 (\<lambda>ni. thenr (read_vec2 unpack_f) (\<lambda>uv.
       returnr (vi, ni, uv))))"

text \<open>One face record, the body of the loop of lines 50 to 68.\<close>

definition read_face :: "(bytes \<Rightarrow> 'f) \<Rightarrow> 'f face reader" where
  "read_face unpack_f =
     thenr rU32 (\<lambda>face_id.
     thenr rU32 (\<lambda>nv.
     thenr (skip 3) (\<lambda>_.
     thenr (skip 16) (\<lambda>_.
     thenr (skip 4) (\<lambda>_.
     thenr (skip 3) (\<lambda>_.
     thenr (rCSTR 13) (\<lambda>t.
     thenr (skip 4) (\<lambda>_.
     thenr (skip 4) (\<lambda>_.
     thenr (repeat nv (read_ref unpack_f)) (\<lambda>rs.
       returnr \<lparr>tex = or_else t ''i76_default'', refs = rs\<rparr>))))))))))"

text \<open>Lines 35 to 70, on the bytes of the file: the model and the bytes left unread.\<close>

definition parse_stream :: "(bytes \<Rightarrow> 'f) \<Rightarrow> string \<Rightarrow> 'f geo reader" where
  "parse_stream unpack_f path =
     thenr (rCSTR 4) (\<lambda>magic.
     thenr rU32 (\<lambda>u1.
     thenr (rCSTR 16) (\<lambda>nm.
     thenr rU32 (\<lambda>vct.
     thenr rU32 (\<lambda>fct.
     thenr rU32 (\<lambda>u2.
       if \<not> (1 \<le> vct \<and> vct \<le> 2000000 \<and> 1 \<le> fct \<and> fct \<le> 2000000)
       then (\<lambda>s. Inl (UnreasonableCounts vct fct))
       else
         thenr (repeat vct (read_vec3 unpack_f)) (\<lambda>vs.
         thenr (repeat vct (read_vec3 unpack_f)) (\<lambda>norms.
         thenr (repeat fct (read_face unpack_f)) (\<lambda>fs.
           returnr \<lparr>name = or_else nm (basename path), verts = vs, faces = fs\<rparr>)))))))))"

text \<open>The body of the \<^verbatim>\<open>with\<close> block, \<open>data\<close> being the content of the file at \<open>path\<close>.\<close>

definition parse_bytes :: "(bytes \<Rightarrow> 'f) \<Rightarrow> string \<Rightarrow> bytes \<Rightarrow> error + 'f geo" where
  "parse_bytes unpack_f path data =
     (if length data < 64 then Inl TooSmall
      else case parse_stream unpack_f path data of
             Inl e \<Rightarrow> Inl e
           | Inr (g, rest) \<Rightarrow> Inr g)"

text \<open>\<^verbatim>\<open>parse_geo_classic(path)\<close>, the file system being a map from paths to contents.\<close>

definition parse_geo_classic ::
  "(bytes \<Rightarrow> 'f) \<Rightarrow> (string \<rightharpoonup> bytes) \<Rightarrow> string \<Rightarrow> error + 'f geo" where
  "parse_geo_classic unpack_f fs path =
     (case fs path of
        None \<Rightarrow> Inl FileNotFound
      | Some data \<Rightarrow> parse_bytes unpack_f path data)"

subsection \<open>The host's data\<close>

text \<open>
  The importer builds into the host's data base. What it uses of it is modelled by its
  documented behaviour: a material is an object of its own (\<open>mat_id\<close>, its position
  in \<^verbatim>\<open>bpy.data.materials\<close>) with a name; \<^verbatim>\<open>bpy.data.materials.new(t)\<close> appends a
  material whose name is \<open>t\<close> made unique among the names in use by the host's rule
  \<open>uniq\<close>, a parameter. A mesh is the list of its vertex positions and the list of its
  faces; a face made by \<^verbatim>\<open>bm.faces.new\<close> is a triangle of vertex indices with a
  material index, a smooth flag and one UV pair for each of its three loops.
\<close>

record material =
  mat_id :: nat
  mat_name :: string
  use_nodes :: bool

type_synonym cache = "string \<rightharpoonup> material"

record 'f tri =
  tri_verts :: "nat \<times> nat \<times> nat"
  material_index :: nat
  smooth :: bool
  tri_uvs :: "('f \<times> 'f) \<times> ('f \<times> 'f) \<times> ('f \<times> 'f)"

record 'f mesh_object =
  ob_name :: string
  me_name :: string
  ob_materials :: "material list"
  me_verts :: "('f \<times> 'f \<times> 'f) list"
  me_faces :: "'f tri list"

definition materials_new :: "(string list \<Rightarrow> string \<Rightarrow> string) \<Rightarrow> material list \<Rightarrow> string \<Rightarrow> material" where
  "materials_new uniq db t =
     \<lparr>mat_id = length db, mat_name = uniq (map mat_name db) t, use_nodes = False\<rparr>"

text \<open>
  \<^verbatim>\<open>bm.faces.new((v1, v2, v3))\<close> raises \<^verbatim>\<open>ValueError\<close> when a vertex is given twice and
  when the mesh has a face on the same vertices already.
\<close>

definition vset :: "nat \<times> nat \<times> nat \<Rightarrow> nat set" where
  "vset t = (case t of (i, j, k) \<Rightarrow> {i, j, k})"

definition faces_new_raises :: "'f tri list \<Rightarrow> nat \<times> nat \<times> nat \<Rightarrow> bool" where
  "faces_new_raises T t =
     (case t of (i, j, k) \<Rightarrow>
        i = j \<or> j = k \<or> i = k \<or> list_ex (\<lambda>f. vset (tri_verts f) = vset t) T)"

subsection \<open>The mesh builder\<close>

text \<open>The body of the loop of lines 84 to 91, on the cache, the host's materials and
  the materials of the object.\<close>

definition ensure_material ::
  "(string list \<Rightarrow> string \<Rightarrow> string) \<Rightarrow> cache \<times> material list \<times> material list \<Rightarrow> 'f face
     \<Rightarrow> cache \<times> material list \<times> material list" where
  "ensure_material uniq st face =
     (case st of (mat_cache, db, ob_mats) \<Rightarrow>
        let t = tex face;
            (m, mat_cache', db') =
               (case mat_cache t of
                  Some m \<Rightarrow> (m, mat_cache, db)
                | None \<Rightarrow>
                    let m = (materials_new uniq db t)\<lparr>use_nodes := True\<rparr>
                    in (m, mat_cache(t \<mapsto> m), db @ [m]))
        in if mat_name m \<notin> set (map mat_name ob_mats)
           then (mat_cache', db', ob_mats @ [m])
           else (mat_cache', db', ob_mats))"

text \<open>\<^verbatim>\<open>{m.name: i for i, m in enumerate(ob.data.materials)}\<close>: a later entry of the same
  name replaces an earlier one.\<close>

definition mat_index_of :: "material list \<Rightarrow> string \<rightharpoonup> nat" where
  "mat_index_of ob_mats = map_of (rev (zip (map mat_name ob_mats) [0..<length ob_mats]))"

text \<open>
  Lines 107 to 114, one triangle of the fan. \<^verbatim>\<open>verts[a[0]]\<close> indexes a Python list of
  \<open>nverts\<close> entries with an unsigned number: \<^verbatim>\<open>IndexError\<close> at or above \<open>nverts\<close>, which
  \<^verbatim>\<open>except ValueError\<close> does not catch. The \<^verbatim>\<open>ValueError\<close> of \<^verbatim>\<open>bm.faces.new\<close> is caught and
  the loop continues with the faces unchanged.
\<close>

definition new_tri ::
  "nat \<Rightarrow> nat \<Rightarrow> 'f ref \<Rightarrow> 'f ref \<Rightarrow> 'f ref \<Rightarrow> 'f tri list \<Rightarrow> error + 'f tri list" where
  "new_tri nverts mid a b c T =
     (if \<not> (fst a < nverts \<and> fst b < nverts \<and> fst c < nverts) then Inl IndexError
      else if faces_new_raises T (fst a, fst b, fst c) then Inr T
      else Inr (T @ [\<lparr>tri_verts = (fst a, fst b, fst c), material_index = mid,
                       smooth = True,
                       tri_uvs = (snd (snd a), snd (snd b), snd (snd c))\<rparr>]))"

text \<open>\<^verbatim>\<open>for i in range(2, len(refs))\<close>, the list being the values of \<open>i\<close> still to come.\<close>

fun fan_loop ::
  "nat \<Rightarrow> nat \<Rightarrow> 'f ref list \<Rightarrow> nat list \<Rightarrow> 'f tri list \<Rightarrow> error + 'f tri list" where
  "fan_loop nverts mid rs [] T = Inr T"
| "fan_loop nverts mid rs (i # is) T =
     (case new_tri nverts mid (rs ! 0) (rs ! (i - 1)) (rs ! i) T of
        Inl e \<Rightarrow> Inl e
      | Inr T' \<Rightarrow> fan_loop nverts mid rs is T')"

text \<open>The body of the loop of lines 98 to 114.\<close>

definition triangulate_face ::
  "nat \<Rightarrow> (string \<rightharpoonup> nat) \<Rightarrow> 'f face \<Rightarrow> 'f tri list \<Rightarrow> error + 'f tri list" where
  "triangulate_face nverts index_of face T =
     (if length (refs face) < 3 then Inr T
      else
        let mid = (case index_of (tex face) of None \<Rightarrow> 0 | Some i \<Rightarrow> i)
        in fan_loop nverts mid (refs face) [2..<length (refs face)] T)"

fun triangulate ::
  "nat \<Rightarrow> (string \<rightharpoonup> nat) \<Rightarrow> 'f face list \<Rightarrow> 'f tri list \<Rightarrow> error + 'f tri list" where
  "triangulate nverts index_of [] T = Inr T"
| "triangulate nverts index_of (face # fs) T =
     (case triangulate_face nverts index_of face T of
        Inl e \<Rightarrow> Inl e
      | Inr T' \<Rightarrow> triangulate nverts index_of fs T')"

text \<open>
  \<^verbatim>\<open>build_mesh(geo, scale, mat_cache)\<close>. The cache is changed in place and the host's
  materials are created before the triangles are made, so both are returned whether the
  call returns an object or raises.
\<close>

definition build_mesh ::
  "(string list \<Rightarrow> string \<Rightarrow> string) \<Rightarrow> ('f::times) geo \<Rightarrow> 'f \<Rightarrow> cache \<times> material list
     \<Rightarrow> (error + 'f mesh_object) \<times> cache \<times> material list" where
  "build_mesh uniq geo scale st =
     (case st of (mat_cache, db) \<Rightarrow>
        let vs = map (\<lambda>(x, y, z). (x * scale, y * scale, z * scale)) (verts geo);
            (mat_cache', db', ob_mats) =
               foldl (ensure_material uniq) (mat_cache, db, []) (faces geo)
        in case triangulate (length vs) (mat_index_of ob_mats) (faces geo) [] of
             Inl e \<Rightarrow> (Inl e, mat_cache', db')
           | Inr T \<Rightarrow>
               (Inr \<lparr>ob_name = name geo, me_name = name geo @ ''_Mesh'',
                     ob_materials = ob_mats, me_verts = vs, me_faces = T\<rparr>,
                mat_cache', db'))"

subsection \<open>The batch import\<close>

text \<open>
  The loop of \<^verbatim>\<open>execute\<close> over \<^verbatim>\<open>filepaths\<close>, lines 181 to 204, with the local variables
  \<^verbatim>\<open>imported\<close>, \<^verbatim>\<open>errors\<close> and \<^verbatim>\<open>mat_cache\<close>, the host's materials, and the objects
  linked into the scene, each with the flag of its rotation to the Y-up axis. An entry
  of \<open>errors\<close> keeps the exception whose text the source stores.
\<close>

record 'f batch =
  imported :: nat
  errors :: "(string \<times> error) list"
  mat_cache :: cache
  bpy_materials :: "material list"
  linked :: "('f mesh_object \<times> bool) list"

definition import_one ::
  "(bytes \<Rightarrow> 'f) \<Rightarrow> (string list \<Rightarrow> string \<Rightarrow> string) \<Rightarrow> (string \<rightharpoonup> bytes) \<Rightarrow> ('f::times) \<Rightarrow> bool
     \<Rightarrow> 'f batch \<Rightarrow> string \<Rightarrow> 'f batch" where
  "import_one unpack_f uniq fs scale y_up b path =
     (case parse_geo_classic unpack_f fs path of
        Inl e \<Rightarrow> b\<lparr>errors := errors b @ [(path, e)]\<rparr>
      | Inr geo \<Rightarrow>
          (case build_mesh uniq geo scale (mat_cache b, bpy_materials b) of
             (Inl e, c, db) \<Rightarrow>
               b\<lparr>errors := errors b @ [(path, e)], mat_cache := c, bpy_materials := db\<rparr>
           | (Inr ob, c, db) \<Rightarrow>
               b\<lparr>imported := imported b + 1, mat_cache := c, bpy_materials := db,
                 linked := linked b @ [(ob, y_up)]\<rparr>))"

definition execute ::
  "(bytes \<Rightarrow> 'f) \<Rightarrow> (string list \<Rightarrow> string \<Rightarrow> string) \<Rightarrow> (string \<rightharpoonup> bytes) \<Rightarrow> material list
     \<Rightarrow> ('f::times) \<Rightarrow> bool \<Rightarrow> string list \<Rightarrow> 'f batch" where
  "execute unpack_f uniq fs db scale y_up filepaths =
     foldl (import_one unpack_f uniq fs scale y_up)
       \<lparr>imported = 0, errors = [], mat_cache = Map.empty, bpy_materials = db, linked = []\<rparr>
       filepaths"

section \<open>Notions used in the statements\<close>

subsection \<open>What the fixed-size records decode to\<close>

text \<open>The value of the 12 bytes of a vector and of the 16 bytes of a corner record, and
  the first \<open>n\<close> consecutive blocks of \<open>k\<close> bytes of a stream.\<close>

definition vec3_of :: "(bytes \<Rightarrow> 'f) \<Rightarrow> bytes \<Rightarrow> 'f \<times> 'f \<times> 'f" where
  "vec3_of u b = (u (take 4 b), u (take 4 (drop 4 b)), u (take 4 (drop 8 b)))"

definition ref_of :: "(bytes \<Rightarrow> 'f) \<Rightarrow> bytes \<Rightarrow> 'f ref" where
  "ref_of u b = (le_nat (take 4 b), le_nat (take 4 (drop 4 b)),
                 (u (take 4 (drop 8 b)), u (take 4 (drop 12 b))))"

definition chunks :: "nat \<Rightarrow> nat \<Rightarrow> bytes \<Rightarrow> bytes list" where
  "chunks k n s = map (\<lambda>i. take k (drop (i * k) s)) [0..<n]"

subsection \<open>The declared size of a model\<close>

text \<open>
  The number of bytes the decoder asks for when it decodes a model: 36 for the header,
  24 for each vertex with its normal, and for each face 55 and 16 more for each corner.
  A file is well formed when it decodes and has exactly this length.
\<close>

definition face_size :: "'f face \<Rightarrow> nat" where
  "face_size face = 55 + 16 * length (refs face)"

definition geo_size :: "'f geo \<Rightarrow> nat" where
  "geo_size g = 36 + 24 * length (verts g) + sum_list (map face_size (faces g))"

subsection \<open>Encoding of sample files\<close>

primrec le_bytes :: "nat \<Rightarrow> nat \<Rightarrow> bytes" where
  "le_bytes 0 n = []"
| "le_bytes (Suc k) n = word_of_nat n # le_bytes k (n div 256)"

definition u32le :: "nat \<Rightarrow> bytes" where
  "u32le n = le_bytes 4 n"

definition enc_header :: "bytes \<Rightarrow> nat \<Rightarrow> nat \<Rightarrow> bytes" where
  "enc_header nm vct fct = replicate 8 0 @ nm @ u32le vct @ u32le fct @ u32le 0"

definition enc_vec3 :: "nat \<Rightarrow> nat \<Rightarrow> nat \<Rightarrow> bytes" where
  "enc_vec3 x y z = u32le x @ u32le y @ u32le z"

definition enc_corner :: "nat \<Rightarrow> nat \<Rightarrow> nat \<Rightarrow> nat \<Rightarrow> bytes" where
  "enc_corner vi ni u v = u32le vi @ u32le ni @ u32le u @ u32le v"

definition enc_face :: "nat \<Rightarrow> bytes \<Rightarrow> bytes \<Rightarrow> bytes" where
  "enc_face nv texf corners =
     u32le 0 @ u32le nv @ replicate 26 0 @ texf @ replicate 8 0 @ corners"

text \<open>A file of one vertex at the origin, the normal bytes \<open>ns\<close>, and one face without
  a texture name and without corners: 115 bytes when \<open>ns\<close> has 12.\<close>

definition tiny_file :: "bytes \<Rightarrow> bytes" where
  "tiny_file ns = enc_header (replicate 16 0) 1 1 @ replicate 12 0 @ ns
                    @ enc_face 0 (replicate 13 0) []"

text \<open>The same with one corner \<open>(0, 0, (0, 0))\<close> on its face: 131 bytes.\<close>

definition corner_file :: bytes where
  "corner_file = enc_header (replicate 16 0) 1 1 @ replicate 24 0
                    @ enc_face 1 (replicate 13 0) (enc_corner 0 0 0 0)"

text \<open>A file like \<open>tiny_file\<close> whose face has the texture name \<^verbatim>\<open>chrome01\<close>: 115 bytes.\<close>

definition chrome_field :: bytes where
  "chrome_field = [99, 104, 114, 111, 109, 101, 48, 49, 0, 0, 0, 0, 0]"

definition chrome_file :: bytes where
  "chrome_file = enc_header (replicate 16 0) 1 1 @ replicate 24 0 @ enc_face 0 chrome_field []"

text \<open>A face record of one corner \<open>(5, 6, (7, 8))\<close>, followed by two bytes: 73 bytes.\<close>

definition sample_face :: bytes where
  "sample_face = enc_face 1 (replicate 13 0) (enc_corner 5 6 7 8) @ [9, 9]"

subsection \<open>The triangles of a fan\<close>

text \<open>The triangle \<open>(c0, c_{i-1}, c_i)\<close> of the corners \<open>rs\<close>, with the material index
  \<open>mid\<close>, smooth, each of its loops with the UV pair of its corner.\<close>

definition fan_tri :: "nat \<Rightarrow> 'f ref list \<Rightarrow> nat \<Rightarrow> 'f tri" where
  "fan_tri mid rs i =
     \<lparr>tri_verts = (fst (rs ! 0), fst (rs ! (i - 1)), fst (rs ! i)), material_index = mid,
      smooth = True,
      tri_uvs = (snd (snd (rs ! 0)), snd (snd (rs ! (i - 1))), snd (snd (rs ! i)))\<rparr>"

text \<open>
  The vertices of the triangle \<open>i\<close> of the fan, and whether the mesh takes it: its three
  vertices are different, no triangle \<open>T\<close> of the mesh before the face lies on them, and
  no earlier triangle of the fan does.
\<close>

definition fan_verts :: "'f ref list \<Rightarrow> nat \<Rightarrow> nat \<times> nat \<times> nat" where
  "fan_verts rs i = (fst (rs ! 0), fst (rs ! (i - 1)), fst (rs ! i))"

definition fan_accepted :: "'f tri list \<Rightarrow> 'f ref list \<Rightarrow> nat \<Rightarrow> bool" where
  "fan_accepted T rs i =
     ((case fan_verts rs i of (a, b, c) \<Rightarrow> a \<noteq> b \<and> b \<noteq> c \<and> a \<noteq> c) \<and>
      \<not> list_ex (\<lambda>f. vset (tri_verts f) = vset (fan_verts rs i)) T \<and>
      \<not> list_ex (\<lambda>j. vset (fan_verts rs j) = vset (fan_verts rs i)) [2..<i])"

subsection \<open>Models that build, files that import\<close>

text \<open>A model builds when every corner of every face of three corners or more has a
  vertex index below the number of vertices.\<close>

definition buildable :: "'f geo \<Rightarrow> bool" where
  "buildable g =
     (\<forall>face \<in> set (faces g). 3 \<le> length (refs face) \<longrightarrow>
        (\<forall>r \<in> set (refs face). fst r < length (verts g)))"

text \<open>The exception that the import of a path ends with, if any: the one of the
  decoder, or the \<^verbatim>\<open>IndexError\<close> of the builder.\<close>

definition import_error :: "(bytes \<Rightarrow> 'f) \<Rightarrow> (string \<rightharpoonup> bytes) \<Rightarrow> string \<Rightarrow> error option" where
  "import_error unpack_f fs path =
     (case parse_geo_classic unpack_f fs path of
        Inl e \<Rightarrow> Some e
      | Inr g \<Rightarrow> if buildable g then None else Some IndexError)"

subsection \<open>A sequence of build calls on one cache\<close>

text \<open>The cache and the host's materials after the calls
  \<^verbatim>\<open>build_mesh(geo, scale, mat_cache)\<close> for the models and scales of a list, one after
  the other on the same cache, whatever each call returns or raises.\<close>

fun build_calls ::
  "(string list \<Rightarrow> string \<Rightarrow> string) \<Rightarrow> (('f::times) geo \<times> 'f) list \<Rightarrow> cache \<times> material list
     \<Rightarrow> cache \<times> material list" where
  "build_calls uniq [] st = st"
| "build_calls uniq ((g, scale) # cs) st = build_calls uniq cs (snd (build_mesh uniq g scale st))"

text \<open>The build calls of a batch: the models of the paths that decode, each with the
  scale of the batch.\<close>

definition decoded :: "(bytes \<Rightarrow> 'f) \<Rightarrow> (string \<rightharpoonup> bytes) \<Rightarrow> 'f \<Rightarrow> string list \<Rightarrow> ('f geo \<times> 'f) list" where
  "decoded unpack_f fs scale paths =
     List.map_filter
       (\<lambda>p. case parse_geo_classic unpack_f fs p of Inl e \<Rightarrow> None | Inr g \<Rightarrow> Some (g, scale))
       paths"

subsection \<open>Sample models\<close>

text \<open>The naming rule of a host in which no requested name is in use yet.\<close>

definition fresh_names :: "string list \<Rightarrow> string \<Rightarrow> string" where
  "fresh_names names t = t"

text \<open>A unit square of four vertices with one face of four corners.\<close>

definition quad_face :: "real face" where
  "quad_face = \<lparr>tex = ''chrome01'',
      refs = [(0, 0, (0, 0)), (1, 1, (1, 0)), (2, 2, (1, 1)), (3, 3, (0, 1))]\<rparr>"

definition quad_geo :: "real geo" where
  "quad_geo = \<lparr>name = ''Quad'', verts = [(0, 0, 0), (1, 0, 0), (1, 1, 0), (0, 1, 0)],
               faces = [quad_face]\<rparr>"

text \<open>The same face with its first corner given twice: the first triangle of its fan has
  the vertices \<open>(0, 0, 1)\<close>.\<close>

definition skip_face :: "real face" where
  "skip_face = \<lparr>tex = ''chrome01'',
      refs = [(0, 0, (0, 0)), (0, 0, (0, 0)), (1, 1, (1, 0)), (2, 2, (1, 1)), (3, 3, (0, 1))]\<rparr>"

text \<open>A face of three corners, the last two on the same vertex.\<close>

definition folded_face :: "real face" where
  "folded_face = \<lparr>tex = ''chrome01'',
      refs = [(0, 0, (0, 0)), (1, 1, (1, 0)), (1, 1, (1, 1))]\<rparr>"

definition folded_geo :: "real geo" where
  "folded_geo = \<lparr>name = ''Folded'', verts = [(0, 0, 0), (1, 0, 0)], faces = [folded_face]\<rparr>"

text \<open>A model with a second texture, its first face without corners.\<close>

definition mixed_geo :: "real geo" where
  "mixed_geo = \<lparr>name = ''Mixed'', verts = [(0, 0, 0), (1, 0, 0), (1, 1, 0), (0, 1, 0)],
                faces = [\<lparr>tex = ''glass'', refs = []\<rparr>, quad_face]\<rparr>"

text \<open>
  A file of three vertices and one face of four corners, the last with the vertex index
  3, the number of vertices; and the model it decodes to, floats as bit patterns.
\<close>

definition oob_file :: bytes where
  "oob_file = enc_header (replicate 16 0) 3 1
                @ enc_vec3 0 0 0 @ enc_vec3 1 0 0 @ enc_vec3 0 1 0 @ replicate 36 0
                @ enc_face 4 (replicate 13 0)
                    (enc_corner 0 0 0 0 @ enc_corner 1 0 0 0 @ enc_corner 2 0 0 0
                       @ enc_corner 3 0 0 0)"

definition oob_geo :: "nat geo" where
  "oob_geo = \<lparr>name = ''oob.geo'', verts = [(0, 0, 0), (1, 0, 0), (0, 1, 0)],
              faces = [\<lparr>tex = ''i76_default'',
                        refs = [(0, 0, (0, 0)), (1, 0, (0, 0)), (2, 0, (0, 0)),
                                (3, 0, (0, 0))]\<rparr>]\<rparr>"

text \<open>Three files, the second one a well-formed file without its last byte.\<close>

definition three_files :: "string \<rightharpoonup> bytes" where
  "three_files = [''a.geo'' \<mapsto> corner_file, ''b.geo'' \<mapsto> butlast corner_file,
                  ''c.geo'' \<mapsto> tiny_file (replicate 12 0)]"

section \<open>The decoder in closed form\<close>

text \<open>Each reader is characterised by what it returns on a stream: a value computed from
  fixed positions, the stream shortened by a fixed number of bytes, or an error when the
  stream is too short for a read that unpacks its bytes.\<close>

lemma rU32_eq:
  "rU32 s = (if 4 \<le> length s then Inr (le_nat (take 4 s), drop 4 s) else Inl StructError)"
  by (auto simp: rU32_def read_def)

lemma rF32_eq:
  "rF32 u s = (if 4 \<le> length s then Inr (u (take 4 s), drop 4 s) else Inl StructError)"
  by (auto simp: rF32_def read_def)

lemma rCSTR_eq: "rCSTR n s = Inr (cstr (take n s), drop n s)"
  by (simp add: rCSTR_def read_def)

lemma skip_eq: "skip n s = Inr ((), drop n s)"
  by (simp add: skip_def read_def)

lemma read_vec3_eq:
  "read_vec3 u s = (if 12 \<le> length s then Inr (vec3_of u (take 12 s), drop 12 s) else Inl StructError)"
  by (auto simp: read_vec3_def thenr_def returnr_def rF32_eq vec3_of_def take_drop)

lemma read_ref_eq:
  "read_ref u s = (if 16 \<le> length s then Inr (ref_of u (take 16 s), drop 16 s) else Inl StructError)"
  by (auto simp: read_ref_def read_vec2_def thenr_def returnr_def rF32_eq rU32_eq ref_of_def take_drop)

lemma chunks_Suc: "chunks k (Suc n) s = take k s # chunks k n (drop k s)"
proof -
  have "[0..<Suc n] = 0 # map Suc [0..<n]"
    by (simp add: upt_conv_Cons map_Suc_upt del: upt_Suc)
  then show ?thesis
    by (simp add: chunks_def comp_def add.commute del: upt_Suc)
qed

lemma repeat_fixed:
  assumes r: "\<And>s. r s = (if k \<le> length s then Inr (d (take k s), drop k s) else Inl StructError)"
  shows "repeat n r s =
           (if n * k \<le> length s then Inr (map d (chunks k n s), drop (n * k) s)
            else Inl StructError)"
proof (induction n arbitrary: s)
  case 0
  then show ?case by (simp add: returnr_def chunks_def)
next
  case (Suc n)
  show ?case
  proof (cases "k \<le> length s")
    case False
    then have "r s = Inl StructError" by (simp add: r)
    with False show ?thesis by (simp add: thenr_def)
  next
    case True
    then have rs: "r s = Inr (d (take k s), drop k s)" by (simp add: r)
    from True have "(Suc n * k \<le> length s) = (n * k \<le> length (drop k s))" by auto
    with True show ?thesis
      by (simp add: thenr_def rs Suc.IH returnr_def chunks_Suc add.commute)
  qed
qed

lemma length_chunks [simp]: "length (chunks k n s) = n"
  by (simp add: chunks_def)

lemma repeat_ref_eq:
  "repeat n (read_ref u) s =
     (if n * 16 \<le> length s then Inr (map (ref_of u) (chunks 16 n s), drop (n * 16) s)
      else Inl StructError)"
  by (rule repeat_fixed) (rule read_ref_eq)

lemma repeat_vec3_eq:
  "repeat n (read_vec3 u) s =
     (if n * 12 \<le> length s then Inr (map (vec3_of u) (chunks 12 n s), drop (n * 12) s)
      else Inl StructError)"
  by (rule repeat_fixed) (rule read_vec3_eq)

lemma read_face_eq:
  "read_face u s =
     (if length s < 8 then Inl StructError
      else if le_nat (take 4 (drop 4 s)) * 16 \<le> length (drop 55 s)
      then Inr (\<lparr>tex = or_else (cstr (take 13 (drop 34 s))) ''i76_default'',
                 refs = map (ref_of u) (chunks 16 (le_nat (take 4 (drop 4 s))) (drop 55 s))\<rparr>,
                drop (55 + le_nat (take 4 (drop 4 s)) * 16) s)
      else Inl StructError)"
  by (auto simp: read_face_def thenr_def rU32_eq skip_eq rCSTR_eq returnr_def
        repeat_ref_eq add.commute)

lemma read_face_rest:
  "read_face u s = Inr (face, rest) \<Longrightarrow> rest = drop (face_size face) s"
  by (auto simp: read_face_eq face_size_def add.commute mult.commute split: if_splits)

lemma read_face_error: "read_face u s = Inl e \<Longrightarrow> e = StructError"
  by (auto simp: read_face_eq split: if_splits)

lemma repeat_face_rest:
  "repeat k (read_face u) s = Inr (fs, rest) \<Longrightarrow>
     rest = drop (sum_list (map face_size fs)) s \<and> length fs = k"
proof (induction k arbitrary: s fs)
  case 0
  then show ?case by (simp add: returnr_def)
next
  case (Suc k)
  from Suc.prems obtain face s1 fs' where
    f: "read_face u s = Inr (face, s1)" and
    r: "repeat k (read_face u) s1 = Inr (fs', rest)" and fs: "fs = face # fs'"
    by (auto simp: thenr_def returnr_def split: sum.splits)
  from read_face_rest [OF f] Suc.IH [OF r] fs show ?case
    by (simp add: add.commute)
qed

lemma repeat_face_error: "repeat k (read_face u) s = Inl e \<Longrightarrow> e = StructError"
proof (induction k arbitrary: s)
  case 0
  then show ?case by (simp add: returnr_def)
next
  case (Suc k)
  then show ?case
    by (auto simp: thenr_def returnr_def split: sum.splits dest: read_face_error)
qed

lemma thenr_returnr:
  "thenr r (\<lambda>x. returnr (h x)) s =
     (case r s of Inl e \<Rightarrow> Inl e | Inr (x, s') \<Rightarrow> Inr (h x, s'))"
  by (simp add: thenr_def returnr_def split: sum.splits prod.splits)

lemma parse_stream_eq:
  assumes "36 \<le> length s"
  shows "parse_stream u path s =
     (if \<not> (1 \<le> le_nat (take 4 (drop 24 s)) \<and> le_nat (take 4 (drop 24 s)) \<le> 2000000 \<and>
             1 \<le> le_nat (take 4 (drop 28 s)) \<and> le_nat (take 4 (drop 28 s)) \<le> 2000000)
      then Inl (UnreasonableCounts (le_nat (take 4 (drop 24 s))) (le_nat (take 4 (drop 28 s))))
      else if \<not> le_nat (take 4 (drop 24 s)) * 24 \<le> length (drop 36 s) then Inl StructError
      else case repeat (le_nat (take 4 (drop 28 s))) (read_face u)
                  (drop (36 + le_nat (take 4 (drop 24 s)) * 24) s) of
             Inl e \<Rightarrow> Inl e
           | Inr (fs, rest) \<Rightarrow>
               Inr (\<lparr>name = or_else (cstr (take 16 (drop 8 s))) (basename path),
                     verts = map (vec3_of u) (chunks 12 (le_nat (take 4 (drop 24 s))) (drop 36 s)),
                     faces = fs\<rparr>, rest))"
proof -
  let ?v = "le_nat (take 4 (drop 24 s))"
  let ?f = "le_nat (take 4 (drop 28 s))"
  have hdr: "parse_stream u path s =
      (if \<not> (1 \<le> ?v \<and> ?v \<le> 2000000 \<and> 1 \<le> ?f \<and> ?f \<le> 2000000)
       then Inl (UnreasonableCounts ?v ?f)
       else
         thenr (repeat ?v (read_vec3 u)) (\<lambda>vs.
         thenr (repeat ?v (read_vec3 u)) (\<lambda>norms.
         thenr (repeat ?f (read_face u)) (\<lambda>fs.
           returnr \<lparr>name = or_else (cstr (take 16 (drop 8 s))) (basename path), verts = vs, faces = fs\<rparr>)))
           (drop 36 s))"
    using assms by (simp add: parse_stream_def thenr_def rU32_eq rCSTR_eq, arith)
  have body: "thenr (repeat ?v (read_vec3 u)) (\<lambda>vs.
         thenr (repeat ?v (read_vec3 u)) (\<lambda>norms. g vs)) t =
       (if \<not> ?v * 24 \<le> length t then Inl StructError
        else g (map (vec3_of u) (chunks 12 ?v t)) (drop (?v * 24) t))" for g :: "('a \<times> 'a \<times> 'a) list \<Rightarrow> 'a geo reader" and t
  proof (cases "?v * 24 \<le> length t")
    case True
    then have "?v * 12 \<le> length t" "?v * 12 \<le> length (drop (?v * 12) t)" by simp_all
    moreover have "drop (?v * 12) (drop (?v * 12) t) = drop (?v * 24) t"
      by (simp add: mult.commute)
    ultimately show ?thesis using True by (simp add: thenr_def repeat_vec3_eq)
  next
    case False
    then have "\<not> ?v * 12 \<le> length t \<or> \<not> ?v * 12 \<le> length (drop (?v * 12) t)" by auto
    with False show ?thesis by (auto simp: thenr_def repeat_vec3_eq)
  qed
  show ?thesis
    unfolding hdr body thenr_returnr
    by (simp add: add.commute)
qed

lemma take_drop_take: "a + b \<le> n \<Longrightarrow> take a (drop b (take n s)) = take a (drop b s)"
  by (simp add: drop_take)

lemma chunks_take: "b + m * k \<le> n \<Longrightarrow> chunks k m (drop b (take n s)) = chunks k m (drop b s)"
proof -
  assume le: "b + m * k \<le> n"
  have "take k (drop (i * k) (drop b (take n s))) = take k (drop (i * k) (drop b s))"
    if "i < m" for i
  proof -
    from that have "Suc i * k \<le> m * k" by (intro mult_le_mono1) simp
    with le have "k + (i * k + b) \<le> n" by simp
    then show ?thesis by (simp add: take_drop_take)
  qed
  then show ?thesis by (simp add: chunks_def)
qed

lemma read_face_take:
  assumes f: "read_face u s = Inr (face, rest)" and le: "face_size face \<le> n"
    and len: "face_size face \<le> length s"
  shows "read_face u (take n s) = Inr (face, take (n - face_size face) rest)"
proof -
  let ?nv = "le_nat (take 4 (drop 4 s))"
  from f have nv: "length (refs face) = ?nv"
    by (auto simp: read_face_eq split: if_splits)
  from f have face: "face = \<lparr>tex = or_else (cstr (take 13 (drop 34 s))) ''i76_default'',
      refs = map (ref_of u) (chunks 16 ?nv (drop 55 s))\<rparr>"
    by (auto simp: read_face_eq split: if_splits)
  from f have rest: "rest = drop (55 + ?nv * 16) s"
    by (auto simp: read_face_eq split: if_splits)
  from le nv have n: "55 + ?nv * 16 \<le> n" by (simp add: face_size_def)
  from len nv have l: "55 + ?nv * 16 \<le> length s" by (simp add: face_size_def)
  have 1: "take 4 (drop 4 (take n s)) = take 4 (drop 4 s)"
    using n by (simp add: take_drop_take)
  have 2: "take 13 (drop 34 (take n s)) = take 13 (drop 34 s)"
    using n by (simp add: take_drop_take)
  have 3: "chunks 16 ?nv (drop 55 (take n s)) = chunks 16 ?nv (drop 55 s)"
    using n by (simp add: chunks_take)
  have 4: "drop (55 + ?nv * 16) (take n s) = take (n - face_size face) rest"
    using nv by (simp add: rest drop_take face_size_def mult.commute)
  have c1: "\<not> length (take n s) < 8" using n l by simp
  have c2: "?nv * 16 \<le> length (drop 55 (take n s))" using n l by simp
  show ?thesis
    unfolding read_face_eq [of u "take n s"] 1 2 3 4
    using c1 c2 face by (simp only: if_True if_False)
qed

lemma repeat_face_nil: "repeat (Suc k) (read_face u) [] = Inl StructError"
  by (simp add: thenr_def read_face_eq)

text \<open>
  The loop over the faces on a prefix of the stream: a cut is an error unless it falls in
  the last 47 bytes of a last face without corners, which are read by reads that do not
  unpack; there the loop returns the faces, the name of the last one decoded from what is
  left of its field.
\<close>

lemma repeat_face_cut:
  assumes "repeat k (read_face u) s = Inr (fs, rest)"
    and "sum_list (map face_size fs) \<le> length s"
    and "n < sum_list (map face_size fs)"
    and "refs (last fs) \<noteq> [] \<or> n + 47 < sum_list (map face_size fs)"
  shows "repeat k (read_face u) (take n s) = Inl StructError"
  using assms
proof (induction k arbitrary: s fs n)
  case 0
  then show ?case by (simp add: returnr_def)
next
  case (Suc k)
  from Suc.prems(1) obtain face s1 fs' where
    f: "read_face u s = Inr (face, s1)" and
    r: "repeat k (read_face u) s1 = Inr (fs', rest)" and fs: "fs = face # fs'"
    by (auto simp: thenr_def returnr_def split: sum.splits)
  from read_face_rest [OF f] have s1: "s1 = drop (face_size face) s" .
  from Suc.prems(2) fs have len: "face_size face + sum_list (map face_size fs') \<le> length s"
    by simp
  show ?case
  proof (cases "face_size face \<le> n")
    case True
    from len have "face_size face \<le> length s" by simp
    from read_face_take [OF f True this]
    have f': "read_face u (take n s) = Inr (face, take (n - face_size face) s1)" .
    from Suc.prems(3) fs True have lt: "n - face_size face < sum_list (map face_size fs')"
      by simp
    then have ne: "fs' \<noteq> []" by auto
    from Suc.prems(4) fs True ne
    have "refs (last fs') \<noteq> [] \<or> n - face_size face + 47 < sum_list (map face_size fs')"
      by auto
    moreover from len s1 have "sum_list (map face_size fs') \<le> length s1" by simp
    ultimately have "repeat k (read_face u) (take (n - face_size face) s1) = Inl StructError"
      using Suc.IH [OF r] lt by blast
    with f' show ?thesis by (simp add: thenr_def)
  next
    case False
    show ?thesis
    proof (cases "read_face u (take n s)")
      case (Inl e)
      with read_face_error [OF Inl] show ?thesis by (simp add: thenr_def)
    next
      case (Inr p)
      from f have nv: "length (refs face) = le_nat (take 4 (drop 4 s))"
        by (auto simp: read_face_eq split: if_splits)
      from Inr have n8: "8 \<le> n" and l8: "8 \<le> length s"
        by (auto simp: read_face_eq split: if_splits)
      then have eq: "take 4 (drop 4 (take n s)) = take 4 (drop 4 s)"
        by (simp add: take_drop_take)
      from Inr have "le_nat (take 4 (drop 4 s)) * 16 \<le> length (drop 55 (take n s))"
        by (auto simp: read_face_eq eq split: if_splits)
      with False nv have n55: "n < 55" and z: "length (refs face) = 0"
        by (auto simp: face_size_def)
      from Inr n55 have p: "snd p = []"
        by (auto simp: read_face_eq eq split: if_splits)
      show ?thesis
      proof (cases k)
        case 0
        with r have e: "fs' = []" by (simp add: returnr_def)
        with fs z have "sum_list (map face_size fs) = 55" by (simp add: face_size_def)
        with e fs z Suc.prems(4) n8 show ?thesis by simp
      next
        case (Suc k')
        from Inr p have "read_face u (take n s) = Inr (fst p, [])" by (cases p) simp
        then show ?thesis
          using repeat_face_nil [of k' u] Suc
          by (simp add: thenr_def del: repeat.simps) (simp add: thenr_def)
      qed
    qed
  qed
qed

lemma repeat_face_tail:
  assumes "repeat k (read_face u) s = Inr (fs, rest)"
    and "sum_list (map face_size fs) \<le> length s"
    and "fs \<noteq> []" and "refs (last fs) = []"
    and "n < sum_list (map face_size fs)"
    and "sum_list (map face_size fs) \<le> n + 47"
  shows "repeat k (read_face u) (take n s) =
           Inr (butlast fs @
                  [\<lparr>tex = or_else (cstr (take 13 (drop (sum_list (map face_size fs) - 21) (take n s))))
                            ''i76_default'',
                    refs = []\<rparr>], [])"
  using assms
proof (induction k arbitrary: s fs n)
  case 0
  then show ?case by (simp add: returnr_def)
next
  case (Suc k)
  from Suc.prems(1) obtain face s1 fs' where
    f: "read_face u s = Inr (face, s1)" and
    r: "repeat k (read_face u) s1 = Inr (fs', rest)" and fs: "fs = face # fs'"
    by (auto simp: thenr_def returnr_def split: sum.splits)
  from read_face_rest [OF f] have s1: "s1 = drop (face_size face) s" .
  from Suc.prems(2) fs have len: "face_size face + sum_list (map face_size fs') \<le> length s"
    by simp
  show ?case
  proof (cases "fs' = []")
    case True
    with r repeat_face_rest [OF r] have k: "k = 0" by simp
    from True fs Suc.prems(4) have z: "refs face = []" by simp
    then have sz: "face_size face = 55" by (simp add: face_size_def)
    from f have "length (refs face) = le_nat (take 4 (drop 4 s))" and l8: "8 \<le> length s"
      by (auto simp: read_face_eq split: if_splits)
    with z have nv: "le_nat (take 4 (drop 4 s)) = 0" by simp
    from True fs sz Suc.prems(5,6) have n: "8 \<le> n" "n < 55" by simp_all
    with l8 have eq: "take 4 (drop 4 (take n s)) = take 4 (drop 4 s)"
      by (simp add: take_drop_take)
    from n l8 have "read_face u (take n s) =
      Inr (\<lparr>tex = or_else (cstr (take 13 (drop 34 (take n s)))) ''i76_default'', refs = []\<rparr>, [])"
      unfolding read_face_eq [of u "take n s"] eq nv by (simp add: chunks_def)
    with True fs sz k show ?thesis
      by (simp add: thenr_def returnr_def)
  next
    case False
    then have "55 \<le> sum_list (map face_size fs')"
      by (cases fs') (simp_all add: face_size_def)
    with Suc.prems(6) fs have le: "face_size face \<le> n" by simp
    from len have "face_size face \<le> length s" by simp
    from read_face_take [OF f le this]
    have f': "read_face u (take n s) = Inr (face, take (n - face_size face) s1)" .
    have "repeat k (read_face u) (take (n - face_size face) s1) =
           Inr (butlast fs' @
                  [\<lparr>tex = or_else (cstr (take 13 (drop (sum_list (map face_size fs') - 21)
                                                     (take (n - face_size face) s1))))
                            ''i76_default'',
                    refs = []\<rparr>], [])"
    proof (rule Suc.IH [OF r])
      from len s1 show "sum_list (map face_size fs') \<le> length s1" by simp
      from False show "fs' \<noteq> []" .
      from Suc.prems(4) fs False show "refs (last fs') = []" by simp
      from Suc.prems(5) fs le show "n - face_size face < sum_list (map face_size fs')" by simp
      from Suc.prems(6) fs le show "sum_list (map face_size fs') \<le> n - face_size face + 47" by simp
    qed
    moreover from \<open>55 \<le> sum_list (map face_size fs')\<close> le
    have "drop (sum_list (map face_size fs') - 21) (take (n - face_size face) s1) =
          drop (sum_list (map face_size fs) - 21) (take n s)"
      by (simp add: s1 fs drop_take [symmetric] take_drop add.commute)
    ultimately show ?thesis
      using f' fs False by (simp add: thenr_def returnr_def)
  qed
qed

lemma parse_bytes_verts:
  assumes "parse_bytes u path data = Inr g"
  shows "length (verts g) = le_nat (take 4 (drop 24 data)) \<and> 64 \<le> length data \<and>
         1 \<le> le_nat (take 4 (drop 24 data)) \<and> le_nat (take 4 (drop 24 data)) \<le> 2000000 \<and>
         1 \<le> le_nat (take 4 (drop 28 data)) \<and> le_nat (take 4 (drop 28 data)) \<le> 2000000 \<and>
         le_nat (take 4 (drop 24 data)) * 24 \<le> length (drop 36 data) \<and>
         (\<exists>rest. repeat (le_nat (take 4 (drop 28 data))) (read_face u)
                  (drop (36 + le_nat (take 4 (drop 24 data)) * 24) data) = Inr (faces g, rest))"
proof -
  from assms have len: "64 \<le> length data"
    by (simp add: parse_bytes_def split: if_splits)
  then have 36: "36 \<le> length data" by simp
  from assms len show ?thesis
    unfolding parse_bytes_def parse_stream_eq [OF 36]
    by (auto split: if_splits sum.splits)
qed

lemma length_le_bytes [simp]: "length (le_bytes k n) = k"
  by (induction k arbitrary: n) simp_all

lemma le_nat_le_bytes: "le_nat (le_bytes k n) = n mod 256 ^ k"
proof (induction k arbitrary: n)
  case 0
  then show ?case by simp
next
  case (Suc k)
  have "unat (word_of_nat n :: byte) = n mod 256"
    by (simp add: unat_of_nat)
  then show ?case
    by (simp add: Suc.IH mod_mult2_eq)
qed

lemma length_u32le [simp]: "length (u32le n) = 4"
  by (simp add: u32le_def)

lemma le_nat_u32le: "n < 2 ^ 32 \<Longrightarrow> le_nat (u32le n) = n"
  by (simp add: u32le_def le_nat_le_bytes)

lemma chunks_append: "length b = n * k \<Longrightarrow> chunks k n (b @ rest) = chunks k n b"
proof -
  assume len: "length b = n * k"
  have "take k (drop (i * k) (b @ rest)) = take k (drop (i * k) b)" if "i < n" for i
  proof -
    from that have "Suc i * k \<le> n * k" by (intro mult_le_mono1) simp
    with len have "k \<le> length b - i * k" by simp
    then show ?thesis by simp
  qed
  then show ?thesis by (simp add: chunks_def)
qed

lemma u32le_eq:
  "u32le n = [word_of_nat n, word_of_nat (n div 256), word_of_nat (n div 65536),
              word_of_nat (n div 16777216)]"
proof -
  have 4: "(4::nat) = Suc (Suc (Suc (Suc 0)))" by simp
  have "n div 256 div 256 = n div 65536" "n div 256 div 256 div 256 = n div 16777216"
    by (simp_all add: div_mult2_eq [symmetric])
  then show ?thesis by (simp add: u32le_def 4)
qed

lemma parse_bytes_eq:
  "parse_bytes u path s =
     (if length s < 64 then Inl TooSmall
      else if \<not> (1 \<le> le_nat (take 4 (drop 24 s)) \<and> le_nat (take 4 (drop 24 s)) \<le> 2000000 \<and>
             1 \<le> le_nat (take 4 (drop 28 s)) \<and> le_nat (take 4 (drop 28 s)) \<le> 2000000)
      then Inl (UnreasonableCounts (le_nat (take 4 (drop 24 s))) (le_nat (take 4 (drop 28 s))))
      else if \<not> le_nat (take 4 (drop 24 s)) * 24 \<le> length (drop 36 s) then Inl StructError
      else case repeat (le_nat (take 4 (drop 28 s))) (read_face u)
                  (drop (36 + le_nat (take 4 (drop 24 s)) * 24) s) of
             Inl e \<Rightarrow> Inl e
           | Inr (fs, rest) \<Rightarrow>
               Inr \<lparr>name = or_else (cstr (take 16 (drop 8 s))) (basename path),
                     verts = map (vec3_of u) (chunks 12 (le_nat (take 4 (drop 24 s))) (drop 36 s)),
                     faces = fs\<rparr>)"
proof (cases "length s < 64")
  case True
  then show ?thesis by (simp add: parse_bytes_def)
next
  case False
  then have "36 \<le> length s" by simp
  from False show ?thesis
    unfolding parse_bytes_def parse_stream_eq [OF \<open>36 \<le> length s\<close>]
    by (simp split: sum.splits)
qed

lemma repeat_Suc_eq:
  "repeat (Suc n) r s =
     (case r s of Inl e \<Rightarrow> Inl e
      | Inr (x, s') \<Rightarrow> (case repeat n r s' of Inl e \<Rightarrow> Inl e | Inr (xs, s'') \<Rightarrow> Inr (x # xs, s'')))"
  by (simp add: thenr_def returnr_def split: sum.splits)

lemma repeat_0_eq: "repeat 0 r s = Inr ([], s)"
  by (simp add: returnr_def)

lemma le_nat_zeros [simp]: "le_nat (replicate n 0) = 0"
  by (induction n) simp_all

lemma cstr_zeros [simp]: "cstr (replicate n 0) = []"
  by (simp add: cstr_def decode_ascii_ignore_def takeWhile_replicate)

lemmas eval_simps = parse_bytes_eq read_face_eq repeat_Suc_eq repeat_0_eq u32le_eq
  enc_header_def enc_face_def or_else_def basename_def chunks_def
  vec3_of_def ref_of_def

lemma parse_bytes_model:
  assumes "parse_bytes u path data = Inr g"
  shows "g = \<lparr>name = or_else (cstr (take 16 (drop 8 data))) (basename path),
              verts = map (vec3_of u) (chunks 12 (le_nat (take 4 (drop 24 data))) (drop 36 data)),
              faces = faces g\<rparr>"
  using assms unfolding parse_bytes_eq
  by (auto split: if_splits sum.splits)

lemma cstr_chrome: "cstr chrome_field = ''chrome01''"
  unfolding chrome_field_def by code_simp

lemma cstr_chr: "cstr [99, 104, 114] = ''chr''"
  by code_simp

section \<open>The decoder: claims\<close>

text \<open>
  In the closed theorems below a float is shown by its bit pattern: \<open>unpack_f\<close> is
  \<open>le_nat\<close>, the number that the four bytes encode.
\<close>

subsection \<open>C10: no bound on the corner count of a face\<close>

text \<open>
  C10. The decoder checks no bound on the declared corner count \<open>nv\<close> of a face. A face
  record being a 4-byte id, any unsigned 32-bit \<open>nv\<close>, the 47 bytes up to the corners and
  then a stream \<open>body\<close>: when \<open>body\<close> has \<open>16 * nv\<close> bytes the decoder returns a face of
  exactly \<open>nv\<close> corners, read from the first \<open>16 * nv\<close> bytes of \<open>body\<close>; when \<open>body\<close> is
  shorter it fails with \<^verbatim>\<open>struct.error\<close>, the end of the stream, and in no case with the
  error of unreasonable counts.
\<close>

theorem nv_unbounded:
  assumes "length fid = 4" and "nv < 2 ^ 32" and "length hdr = 47"
  shows "read_face u (fid @ u32le nv @ hdr @ body) =
           (if 16 * nv \<le> length body
            then Inr (\<lparr>tex = or_else (cstr (take 13 (drop 26 hdr))) ''i76_default'',
                       refs = map (ref_of u) (chunks 16 nv body)\<rparr>, drop (16 * nv) body)
            else Inl StructError)
         \<and> length (chunks 16 nv body) = nv"
  using assms
  by (simp add: read_face_eq le_nat_u32le mult.commute)

theorem nv_unbounded_witness:
  "length (u32le 7) = 4 \<and> (3000000::nat) < 2 ^ 32 \<and> length (replicate 47 (0::byte)) = 47 \<and>
   read_face le_nat (u32le 7 @ u32le 3000000 @ replicate 47 0 @ []) = Inl StructError \<and>
   read_face le_nat (u32le 7 @ u32le 1 @ replicate 47 0 @ enc_corner 2 3 4 5 @ [9]) =
     Inr (\<lparr>tex = ''i76_default'', refs = [(2, 3, (4, 5))]\<rparr>, [9])"
  using nv_unbounded [of "u32le 7" 3000000 "replicate 47 0" le_nat "[]"]
    nv_unbounded [of "u32le 7" 1 "replicate 47 0" le_nat "enc_corner 2 3 4 5 @ [9]"]
  by (simp add: or_else_def chunks_def ref_of_def enc_corner_def u32le_eq)

subsection \<open>C4: the fixed part of a face record\<close>

text \<open>
  C4, amended. The fixed part of a face record is 55 bytes, not 57: 4 of the id, 4 of
  \<open>nv\<close>, an opaque block of 26 bytes (3 of colour, 16 of the plane, 4 unknown, 3 of
  flags), 13 of the texture name, and twice 4 unknown. On a stream that holds the whole
  record, the texture name is decoded from the 13 bytes at offset \<open>4 + 4 + 26\<close>, the \<open>nv\<close>
  corners from offset 55, and \<open>55 + 16 * nv\<close> bytes are consumed.
\<close>

theorem face_header_55:
  assumes "nv = le_nat (take 4 (drop 4 s))" and "55 + 16 * nv \<le> length s"
  shows "read_face u s =
     Inr (\<lparr>tex = or_else (cstr (take 13 (drop (4 + 4 + (3 + 16 + 4 + 3)) s))) ''i76_default'',
           refs = map (ref_of u) (chunks 16 nv (drop (4 + 4 + (3 + 16 + 4 + 3) + 13 + 4 + 4) s))\<rparr>,
          drop (55 + 16 * nv) s)"
  using assms
  by (simp add: read_face_eq mult.commute)

theorem face_header_55_witness:
  "1 = le_nat (take 4 (drop 4 sample_face)) \<and> 55 + 16 * 1 \<le> length sample_face \<and>
   read_face le_nat sample_face =
     Inr (\<lparr>tex = ''i76_default'', refs = [(5, 6, (7, 8))]\<rparr>, [9, 9])"
  using face_header_55 [of 1 sample_face le_nat]
  by (simp add: sample_face_def enc_face_def enc_corner_def u32le_eq or_else_def chunks_def
        ref_of_def)

text \<open>
  Against C4 as stated: in a face record of one corner followed by two more bytes, 73
  bytes, the corner is the one stored at offset 55 and the two bytes are left unread;
  the 16 bytes at offset 57 are another corner.
\<close>

theorem face_header_57_counterexample:
  "length sample_face = 57 + 16 \<and>
   read_face le_nat sample_face =
     Inr (\<lparr>tex = ''i76_default'', refs = [ref_of le_nat (take 16 (drop 55 sample_face))]\<rparr>,
          [9, 9]) \<and>
   ref_of le_nat (take 16 (drop 55 sample_face)) = (5, 6, (7, 8)) \<and>
   ref_of le_nat (take 16 (drop 57 sample_face)) = (393216, 458752, (524288, 151584768))"
  by (simp add: sample_face_def read_face_eq enc_face_def enc_corner_def u32le_eq or_else_def
        chunks_def ref_of_def)

subsection \<open>C3: the texture name of a face without one\<close>

text \<open>
  C3, amended. A face whose 13-byte texture field (at offset 34 of the record) decodes to
  the empty string, as a field of zero bytes does, gets the texture name
  \<^verbatim>\<open>"i76_default"\<close>; the name \<^verbatim>\<open>"default"\<close> is not used.
\<close>

theorem empty_texture_name:
  assumes "read_face u (pre @ field @ post) = Inr (face, rest)"
    and "length pre = 34" and "length field = 13" and "cstr field = []"
  shows "tex face = ''i76_default''"
  using assms
  by (auto simp: read_face_eq or_else_def split: if_splits)

theorem empty_texture_name_witness:
  "read_face le_nat (replicate 34 0 @ replicate 13 0 @ replicate 8 0) =
     Inr (\<lparr>tex = ''i76_default'', refs = []\<rparr>, []) \<and>
   length (replicate 34 (0::byte)) = 34 \<and> length (replicate 13 (0::byte)) = 13 \<and>
   cstr (replicate 13 0) = [] \<and>
   tex \<lparr>tex = ''i76_default'', refs = ([] :: nat ref list)\<rparr> = ''i76_default''"
proof -
  have r: "read_face le_nat (replicate 34 0 @ replicate 13 0 @ replicate 8 0) =
     Inr (\<lparr>tex = ''i76_default'', refs = []\<rparr>, [])"
    by (simp add: read_face_eq or_else_def chunks_def)
  from empty_texture_name [OF r] r show ?thesis by simp
qed

text \<open>Against C3 as stated: the face of the sample file has a texture field of zero
  bytes, and its texture name is not \<^verbatim>\<open>"default"\<close>.\<close>

theorem default_texture_counterexample:
  "parse_bytes le_nat ''models/m.geo'' (tiny_file (replicate 12 0)) =
     Inr \<lparr>name = ''m.geo'', verts = [(0, 0, 0)],
           faces = [\<lparr>tex = ''i76_default'', refs = []\<rparr>]\<rparr> \<and>
   take 13 (drop (36 + 24 + 34) (tiny_file (replicate 12 0))) = replicate 13 0 \<and>
   ''i76_default'' \<noteq> ''default''"
  by (simp add: tiny_file_def eval_simps del: repeat.simps)

subsection \<open>C5: truncated files\<close>

text \<open>
  C5, amended. For every well-formed file (it decodes, and its length is the declared
  size of the model), the decoder fails on a proper prefix of \<open>n\<close> bytes and returns no
  model whenever the last face has at least one corner or more than 47 bytes are cut off:
  with the error of a file too small when \<open>n < 64\<close>, with \<^verbatim>\<open>struct.error\<close> otherwise. In
  particular it fails when the last byte of a file whose last face has a corner is
  removed. When the last face has no corner and at most 47 bytes are cut off, the cut
  falls in fields that are read without unpacking and there is no error: the decoder
  returns the model of the whole file but for the texture name of the last face, which
  is decoded from what is left of its 13-byte field (the 13 bytes at 21 from the end).
\<close>

theorem truncated_parse:
  assumes ok: "parse_bytes u path data = Inr g"
    and wf: "length data = geo_size g"
    and n: "n < length data"
  shows "parse_bytes u path (take n data) =
     (if refs (last (faces g)) \<noteq> [] \<or> n + 47 < length data
      then Inl (if n < 64 then TooSmall else StructError)
      else Inr (g\<lparr>faces := butlast (faces g) @
                  [\<lparr>tex = or_else (cstr (take 13 (drop (length data - 21) (take n data))))
                            ''i76_default'',
                    refs = []\<rparr>]\<rparr>))"
proof -
  let ?v = "le_nat (take 4 (drop 24 data))"
  let ?f = "le_nat (take 4 (drop 28 data))"
  let ?o = "36 + ?v * 24"
  let ?S = "sum_list (map face_size (faces g))"
  from parse_bytes_verts [OF ok] obtain rest where
    v: "length (verts g) = ?v" and counts: "1 \<le> ?v" "?v \<le> 2000000" "1 \<le> ?f" "?f \<le> 2000000"
    and fs: "repeat ?f (read_face u) (drop ?o data) = Inr (faces g, rest)"
    by blast
  from repeat_face_rest [OF fs] counts have ne: "faces g \<noteq> []" by auto
  then have S55: "55 \<le> ?S" by (cases "faces g") (simp_all add: face_size_def)
  from wf have "length data = 36 + 24 * length (verts g) + ?S"
    by (simp only: geo_size_def)
  then have e: "length data = ?o + ?S" by (simp only: v mult.commute)
  have ld: "length (drop ?o data) = length data - ?o" by (rule length_drop)
  from e have S: "?S \<le> length (drop ?o data)" unfolding ld by arith
  show ?thesis
  proof (cases "n < 64")
    case True
    from e S55 counts have "115 \<le> length data" by arith
    with True have far: "n + 47 < length data" by arith
    from True have "length (take n data) < 64" by simp
    with True far show ?thesis by (simp only: parse_bytes_def if_True simp_thms)
  next
    case False
    with n have len: "36 \<le> length (take n data)" by simp
    from False have 1: "take 4 (drop 24 (take n data)) = take 4 (drop 24 data)"
      by (simp add: take_drop_take)
    from False have 2: "take 4 (drop 28 (take n data)) = take 4 (drop 28 data)"
      by (simp add: take_drop_take)
    from False have 3: "take 16 (drop 8 (take n data)) = take 16 (drop 8 data)"
      by (simp add: take_drop_take)
    have d: "drop ?o (take n data) = take (n - ?o) (drop ?o data)"
      by (simp add: drop_take)
    from False n have l64: "\<not> length (take n data) < 64" by simp
    show ?thesis
    proof (cases "refs (last (faces g)) \<noteq> [] \<or> n + 47 < length data")
      case True
      have "parse_stream u path (take n data) = Inl StructError"
      proof (cases "?v * 24 \<le> length (drop 36 (take n data))")
        case False
        with counts show ?thesis
          unfolding parse_stream_eq [OF len] 1 2 by simp
      next
        case v24: True
        from v24 n \<open>\<not> n < 64\<close> have on: "?o \<le> n" by simp
        with e n have "n - ?o < ?S" by arith
        moreover have "refs (last (faces g)) \<noteq> [] \<or> n - ?o + 47 < ?S"
        proof (cases "refs (last (faces g)) \<noteq> []")
          case True
          then show ?thesis by (rule disjI1)
        next
          case False
          with \<open>refs (last (faces g)) \<noteq> [] \<or> n + 47 < length data\<close>
          have "n + 47 < length data" by blast
          with e on have "n - ?o + 47 < ?S" by arith
          then show ?thesis by (rule disjI2)
        qed
        ultimately have "repeat ?f (read_face u) (take (n - ?o) (drop ?o data)) = Inl StructError"
          using repeat_face_cut [OF fs S] by blast
        with counts v24 show ?thesis
          unfolding parse_stream_eq [OF len] 1 2 d by simp
      qed
      with True False l64 show ?thesis by (simp add: parse_bytes_def)
    next
      case tail: False
      then have z: "refs (last (faces g)) = []" and near: "length data \<le> n + 47"
        by (simp_all add: not_less)
      from near e S55 have on: "?o \<le> n" by arith
      with n have v24: "?v * 24 \<le> length (drop 36 (take n data))" by simp
      from e n on have lt: "n - ?o < ?S" by arith
      from e near on have ge: "?S \<le> n - ?o + 47" by arith
      from repeat_face_tail [OF fs S ne z lt ge]
      have r: "repeat ?f (read_face u) (take (n - ?o) (drop ?o data)) =
           Inr (butlast (faces g) @
                  [\<lparr>tex = or_else (cstr (take 13 (drop (?S - 21) (take (n - ?o) (drop ?o data)))))
                            ''i76_default'',
                    refs = []\<rparr>], [])" .
      have ta: "take (n - ?o) (drop ?o data) = drop ?o (take n data)"
        by (simp only: drop_take)
      from e S55 have tb: "?S - 21 + ?o = length data - 21" by arith
      have t: "drop (?S - 21) (take (n - ?o) (drop ?o data)) =
            drop (length data - 21) (take n data)"
        unfolding ta by (simp only: drop_drop tb)
      from on have 4: "chunks 12 ?v (drop 36 (take n data)) = chunks 12 ?v (drop 36 data)"
        by (intro chunks_take) simp
      have "parse_bytes u path (take n data) =
        Inr \<lparr>name = or_else (cstr (take 16 (drop 8 data))) (basename path),
              verts = map (vec3_of u) (chunks 12 ?v (drop 36 data)),
              faces = butlast (faces g) @
                  [\<lparr>tex = or_else (cstr (take 13 (drop (length data - 21) (take n data))))
                            ''i76_default'',
                    refs = []\<rparr>]\<rparr>"
        unfolding parse_bytes_eq 1 2 3 4 d r t
        using counts v24 l64 by simp
      also have "\<dots> = Inr (g\<lparr>faces := butlast (faces g) @
                  [\<lparr>tex = or_else (cstr (take 13 (drop (length data - 21) (take n data))))
                            ''i76_default'',
                    refs = []\<rparr>]\<rparr>)"
        by (subst (2) parse_bytes_model [OF ok]) simp
      finally show ?thesis using tail by simp
    qed
  qed
qed

theorem truncated_parse_witness:
  "parse_bytes le_nat ''models/m.geo'' chrome_file =
     Inr \<lparr>name = ''m.geo'', verts = [(0, 0, 0)],
           faces = [\<lparr>tex = ''chrome01'', refs = []\<rparr>]\<rparr> \<and>
   length chrome_file = 115 \<and>
   parse_bytes le_nat ''models/m.geo'' (take 67 chrome_file) = Inl StructError \<and>
   parse_bytes le_nat ''models/m.geo'' (take 97 chrome_file) =
     Inr \<lparr>name = ''m.geo'', verts = [(0, 0, 0)],
           faces = [\<lparr>tex = ''chr'', refs = []\<rparr>]\<rparr> \<and>
   parse_bytes le_nat ''models/m.geo'' (take 114 chrome_file) =
     Inr \<lparr>name = ''m.geo'', verts = [(0, 0, 0)],
           faces = [\<lparr>tex = ''chrome01'', refs = []\<rparr>]\<rparr> \<and>
   parse_bytes le_nat ''models/m.geo'' (take 130 corner_file) = Inl StructError \<and>
   parse_bytes le_nat ''models/m.geo'' (take 63 corner_file) = Inl TooSmall"
proof -
  let ?g = "\<lparr>name = ''m.geo'', verts = [(0::nat, 0::nat, 0::nat)],
             faces = [\<lparr>tex = ''i76_default'', refs = [(0, 0, (0::nat, 0::nat))]\<rparr>]\<rparr>"
  let ?c = "\<lparr>name = ''m.geo'', verts = [(0::nat, 0::nat, 0::nat)],
             faces = [\<lparr>tex = ''chrome01'', refs = ([] :: nat ref list)\<rparr>]\<rparr>"
  have p: "parse_bytes le_nat ''models/m.geo'' corner_file = Inr ?g"
    by (simp add: corner_file_def eval_simps enc_corner_def del: repeat.simps)
  have l: "length corner_file = geo_size ?g"
    by (simp add: corner_file_def enc_header_def enc_face_def enc_corner_def geo_size_def
          face_size_def)
  have n: "(130::nat) < length corner_file" "(63::nat) < length corner_file"
    by (simp_all add: corner_file_def enc_header_def enc_face_def enc_corner_def)
  have len: "length chrome_file = 115"
    by (simp add: chrome_file_def chrome_field_def enc_header_def enc_face_def)
  have lf: "length chrome_field = 13"
    by (simp add: chrome_field_def)
  have pc: "parse_bytes le_nat ''models/m.geo'' chrome_file = Inr ?c"
    by (simp add: chrome_file_def eval_simps cstr_chrome lf del: repeat.simps)
  have lc: "length chrome_file = geo_size ?c"
    by (simp add: len geo_size_def face_size_def)
  have nc: "(67::nat) < length chrome_file" "(97::nat) < length chrome_file"
    "(114::nat) < length chrome_file"
    by (simp_all add: len)
  have t97: "take 13 (drop (115 - 21) (take 97 chrome_file)) = [99, 104, 114]"
    by (simp add: chrome_file_def chrome_field_def enc_header_def enc_face_def u32le_eq)
  have t114: "take 13 (drop (115 - 21) (take 114 chrome_file)) = chrome_field"
    by (simp add: chrome_file_def chrome_field_def enc_header_def enc_face_def u32le_eq)
  from truncated_parse [OF p l n(1)] truncated_parse [OF p l n(2)]
    truncated_parse [OF pc lc nc(1)] truncated_parse [OF pc lc nc(2)]
    truncated_parse [OF pc lc nc(3)] pc
  show ?thesis
    unfolding len t97 t114
    by (simp add: len or_else_def cstr_chr cstr_chrome)
qed

text \<open>
  Against C5 as stated: the sample file of 115 bytes is well formed and its only face
  has no corner; without its last byte it decodes to the same model, with no error.
\<close>

theorem truncated_counterexample:
  "parse_bytes le_nat ''models/m.geo'' (tiny_file (replicate 12 0)) =
     Inr \<lparr>name = ''m.geo'', verts = [(0, 0, 0)],
           faces = [\<lparr>tex = ''i76_default'', refs = []\<rparr>]\<rparr> \<and>
   length (tiny_file (replicate 12 0)) =
     geo_size \<lparr>name = ''m.geo'', verts = [(0::nat, 0::nat, 0::nat)],
               faces = [\<lparr>tex = ''i76_default'', refs = ([] :: nat ref list)\<rparr>]\<rparr> \<and>
   parse_bytes le_nat ''models/m.geo'' (butlast (tiny_file (replicate 12 0))) =
     Inr \<lparr>name = ''m.geo'', verts = [(0, 0, 0)],
           faces = [\<lparr>tex = ''i76_default'', refs = []\<rparr>]\<rparr>"
  by (simp add: tiny_file_def eval_simps butlast_append geo_size_def face_size_def
        del: repeat.simps)

subsection \<open>C2: the normals\<close>

text \<open>
  C2, amended. In a well-formed file of \<open>V\<close> vertices, the decoder reads the \<open>12 * V\<close>
  bytes that follow the vertices, the normals, and drops them: the model it returns has
  a name, the vertices and the faces, no normals, and it is the same whatever these
  bytes are. With a header \<open>hdr\<close> of 36 bytes that declares \<open>V\<close> vertices and \<open>F\<close> faces,
  vertex bytes \<open>vs\<close> and normal bytes \<open>ns\<close>, the vertices are decoded from \<open>vs\<close> and the
  faces from what follows \<open>ns\<close>.
\<close>

theorem normals_not_retained:
  assumes "length hdr = 36" and "length vs = 12 * V" and "length ns = 12 * V"
    and "V = le_nat (take 4 (drop 24 hdr))" and "1 \<le> V" and "V \<le> 2000000"
    and "F = le_nat (take 4 (drop 28 hdr))" and "1 \<le> F" and "F \<le> 2000000"
    and "4 \<le> length rest"
  shows "parse_bytes u path (hdr @ vs @ ns @ rest) =
     (case repeat F (read_face u) rest of
        Inl e \<Rightarrow> Inl e
      | Inr (fs, _) \<Rightarrow>
          Inr \<lparr>name = or_else (cstr (take 16 (drop 8 hdr))) (basename path),
                verts = map (vec3_of u) (chunks 12 V vs), faces = fs\<rparr>)"
proof -
  let ?s = "hdr @ vs @ ns @ rest"
  from assms have len: "36 \<le> length ?s" and l64: "\<not> length ?s < 64" by simp_all
  from assms have 1: "take 4 (drop 24 ?s) = take 4 (drop 24 hdr)"
    and 2: "take 4 (drop 28 ?s) = take 4 (drop 28 hdr)"
    and 3: "take 16 (drop 8 ?s) = take 16 (drop 8 hdr)" by simp_all
  from assms have 4: "drop 36 ?s = vs @ ns @ rest" by simp
  from assms have 5: "drop (36 + V * 24) ?s = rest" by simp
  from assms have 6: "chunks 12 V (vs @ ns @ rest) = chunks 12 V vs"
    by (simp add: chunks_append mult.commute)
  from assms have 7: "V * 24 \<le> length (vs @ ns @ rest)" by simp
  from assms(5,6,8,9) 7 show ?thesis
    unfolding parse_bytes_def parse_stream_eq [OF len] 1 2 3 4
      assms(4) [symmetric] assms(7) [symmetric] 5 6
    using l64 by (simp split: sum.splits)
qed

theorem normals_not_retained_witness:
  "length (enc_header (replicate 16 0) 1 1) = 36 \<and>
   length (replicate 12 (0::byte)) = 12 * 1 \<and> length (enc_vec3 1 2 3) = 12 * 1 \<and>
   1 = le_nat (take 4 (drop 24 (enc_header (replicate 16 0) 1 1))) \<and>
   1 = le_nat (take 4 (drop 28 (enc_header (replicate 16 0) 1 1))) \<and>
   4 \<le> length (enc_face 0 (replicate 13 0) []) \<and>
   parse_bytes le_nat ''models/m.geo''
     (enc_header (replicate 16 0) 1 1 @ replicate 12 0 @ enc_vec3 1 2 3
        @ enc_face 0 (replicate 13 0) []) =
     Inr \<lparr>name = ''m.geo'', verts = [(0, 0, 0)],
           faces = [\<lparr>tex = ''i76_default'', refs = []\<rparr>]\<rparr>"
  using normals_not_retained [of "enc_header (replicate 16 0) 1 1" "replicate 12 0" 1
      "enc_vec3 1 2 3" 1 "enc_face 0 (replicate 13 0) []" le_nat "''models/m.geo''"]
  by (simp add: eval_simps enc_vec3_def del: repeat.simps)

text \<open>
  Against C2 as stated: two well-formed files that differ in their normal only, \<open>(0, 0, 0)\<close>
  in one and the bit patterns \<open>(1, 2, 3)\<close> in the other, decode to the same model.
\<close>

theorem normals_counterexample:
  "parse_bytes le_nat ''models/m.geo'' (tiny_file (replicate 12 0)) =
     parse_bytes le_nat ''models/m.geo'' (tiny_file (enc_vec3 1 2 3)) \<and>
   parse_bytes le_nat ''models/m.geo'' (tiny_file (replicate 12 0)) =
     Inr \<lparr>name = ''m.geo'', verts = [(0, 0, 0)],
           faces = [\<lparr>tex = ''i76_default'', refs = []\<rparr>]\<rparr> \<and>
   vec3_of le_nat (replicate 12 0) = (0, 0, 0) \<and>
   vec3_of le_nat (enc_vec3 1 2 3) = (1, 2, 3)"
  by (simp add: tiny_file_def eval_simps enc_vec3_def del: repeat.simps)

section \<open>The mesh builder and the batch: lemmas\<close>

lemma ensure_material_cache:
  assumes "ensure_material uniq (c, db, obm) face = (c', db', obm')"
  shows "c \<subseteq>\<^sub>m c' \<and> dom c' = insert (tex face) (dom c) \<and>
         set obm' \<subseteq> set obm \<union> ran c'"
proof (cases "c (tex face)")
  case None
  with assms show ?thesis
    by (auto simp: ensure_material_def Let_def map_le_def ran_def split: if_splits)
next
  case (Some m)
  with assms show ?thesis
    by (auto simp: ensure_material_def Let_def map_le_def ran_def split: if_splits)
qed

lemma ran_mono: "c \<subseteq>\<^sub>m c' \<Longrightarrow> ran c \<subseteq> ran c'"
  by (auto simp: ran_def map_le_def dom_def) (metis domI)

lemma ensure_all_cache:
  assumes "foldl (ensure_material uniq) (c, db, obm) fs = (c', db', obm')"
  shows "c \<subseteq>\<^sub>m c' \<and> dom c' = dom c \<union> tex ` set fs \<and> set obm' \<subseteq> set obm \<union> ran c'"
  using assms
proof (induction fs arbitrary: c db obm)
  case Nil
  then show ?case by simp
next
  case (Cons face fs)
  obtain c1 db1 obm1 where 1: "ensure_material uniq (c, db, obm) face = (c1, db1, obm1)"
    by (cases "ensure_material uniq (c, db, obm) face") auto
  with Cons.prems have 2: "foldl (ensure_material uniq) (c1, db1, obm1) fs = (c', db', obm')"
    by simp
  from ensure_material_cache [OF 1] Cons.IH [OF 2] ran_mono [of c1 c']
  show ?case
    by (auto intro: map_le_trans)
qed

lemma build_mesh_state:
  "snd (build_mesh uniq g scale (c, db)) =
     (case foldl (ensure_material uniq) (c, db, []) (faces g) of (c', db', obm) \<Rightarrow> (c', db'))"
  by (simp add: build_mesh_def Let_def split: prod.splits sum.splits)

lemma build_mesh_cache:
  assumes "build_mesh uniq g scale (c, db) = (res, c', db')"
  shows "c \<subseteq>\<^sub>m c' \<and> dom c' = dom c \<union> tex ` set (faces g) \<and>
         (\<forall>ob. res = Inr ob \<longrightarrow> set (ob_materials ob) \<subseteq> ran c')"
proof -
  obtain c1 db1 obm where f: "foldl (ensure_material uniq) (c, db, []) (faces g) = (c1, db1, obm)"
    by (cases "foldl (ensure_material uniq) (c, db, []) (faces g)") auto
  with assms have "c' = c1" and r: "\<forall>ob. res = Inr ob \<longrightarrow> ob_materials ob = obm"
    by (auto simp: build_mesh_def Let_def split: sum.splits)
  with ensure_all_cache [OF f] show ?thesis by auto
qed

lemma build_calls_append:
  "build_calls uniq (cs1 @ cs2) st = build_calls uniq cs2 (build_calls uniq cs1 st)"
  by (induction uniq cs1 st rule: build_calls.induct) simp_all

lemma build_calls_cache:
  assumes "build_calls uniq cs (c, db) = (c', db')"
  shows "c \<subseteq>\<^sub>m c' \<and> dom c' = dom c \<union> (\<Union>(g, s) \<in> set cs. tex ` set (faces g))"
  using assms
proof (induction cs arbitrary: c db)
  case Nil
  then show ?case by simp
next
  case (Cons a cs)
  obtain g s where a: "a = (g, s)" by (cases a)
  obtain res c1 db1 where b: "build_mesh uniq g s (c, db) = (res, c1, db1)"
    by (cases "build_mesh uniq g s (c, db)") auto
  with Cons.prems a have r: "build_calls uniq cs (c1, db1) = (c', db')" by simp
  from build_mesh_cache [OF b] Cons.IH [OF r] a show ?case
    by (auto intro: map_le_trans)
qed

lemma new_tri_result:
  "new_tri nverts mid a b c T =
     (if fst a < nverts \<and> fst b < nverts \<and> fst c < nverts
      then Inr (if faces_new_raises T (fst a, fst b, fst c) then T
                else T @ [\<lparr>tri_verts = (fst a, fst b, fst c), material_index = mid,
                            smooth = True,
                            tri_uvs = (snd (snd a), snd (snd b), snd (snd c))\<rparr>])
      else Inl IndexError)"
  by (simp add: new_tri_def)

text \<open>The mesh rejects the triangle \<open>k\<close> of a fan, when it holds the triangles taken
  before, exactly when the triangle is not accepted in the sense of \<open>fan_accepted\<close>.\<close>

lemma degenerate_card: "(a = b \<or> b = c \<or> a = c) = (card (vset (a, b, c)) \<noteq> 3)"
  by (auto simp: vset_def card_insert_if)

lemma degenerate_vset:
  assumes "vset (a, b, c) = vset (i, j, k)"
  shows "(a = b \<or> b = c \<or> a = c) = (i = j \<or> j = k \<or> i = k)"
  unfolding degenerate_card assms ..

lemma tri_verts_fan_tri [simp]: "tri_verts (fan_tri mid rs i) = fan_verts rs i"
  by (simp add: fan_tri_def fan_verts_def)

lemma raises_iff_not_accepted:
  assumes "2 \<le> k"
  shows "faces_new_raises (T @ map (fan_tri mid rs) (filter (fan_accepted T rs) [2..<k]))
           (fan_verts rs k) = (\<not> fan_accepted T rs k)"
proof -
  obtain a b c where abc: "fan_verts rs k = (a, b, c)" by (cases "fan_verts rs k")
  let ?deg = "a = b \<or> b = c \<or> a = c"
  let ?inT = "\<exists>f \<in> set T. vset (tri_verts f) = vset (fan_verts rs k)"
  let ?earlier = "\<exists>j \<in> {2..<k}. vset (fan_verts rs j) = vset (fan_verts rs k)"
  let ?acc_earlier = "\<exists>j \<in> {2..<k}. fan_accepted T rs j \<and>
                         vset (fan_verts rs j) = vset (fan_verts rs k)"
  have key: "?deg \<or> ?inT \<or> ?acc_earlier" if "?earlier"
  proof -
    from that obtain j0 where "j0 \<in> {2..<k} \<and> vset (fan_verts rs j0) = vset (fan_verts rs k)"
      by blast
    then have ex: "\<exists>j. j \<in> {2..<k} \<and> vset (fan_verts rs j) = vset (fan_verts rs k)" ..
    define j where "j = (LEAST j. j \<in> {2..<k} \<and> vset (fan_verts rs j) = vset (fan_verts rs k))"
    from LeastI_ex [OF ex] have j: "j \<in> {2..<k}" "vset (fan_verts rs j) = vset (fan_verts rs k)"
      unfolding j_def by blast+
    have least: "\<not> (i \<in> {2..<k} \<and> vset (fan_verts rs i) = vset (fan_verts rs k))" if "i < j" for i
      using not_less_Least that unfolding j_def by blast
    show ?thesis
    proof (cases "fan_accepted T rs j")
      case True
      with j show ?thesis by blast
    next
      case False
      obtain a' b' c' where abc': "fan_verts rs j = (a', b', c')" by (cases "fan_verts rs j")
      from False consider
        (deg) "a' = b' \<or> b' = c' \<or> a' = c'"
        | (inT) "\<exists>f \<in> set T. vset (tri_verts f) = vset (fan_verts rs j)"
        | (earlier) "\<exists>i \<in> {2..<j}. vset (fan_verts rs i) = vset (fan_verts rs j)"
        by (auto simp: fan_accepted_def abc' list_ex_iff)
      then show ?thesis
      proof cases
        case deg
        from j(2) have "vset (a', b', c') = vset (a, b, c)" by (simp add: abc abc')
        from degenerate_vset [OF this] deg show ?thesis by simp
      next
        case inT
        with j(2) show ?thesis by simp
      next
        case earlier
        then obtain i where i: "i \<in> {2..<j}" "vset (fan_verts rs i) = vset (fan_verts rs j)"
          by blast
        with j have "i < j" "i \<in> {2..<k}" "vset (fan_verts rs i) = vset (fan_verts rs k)"
          by auto
        with least [of i] show ?thesis by blast
      qed
    qed
  qed
  have M: "(\<exists>f \<in> set (T @ map (fan_tri mid rs) (filter (fan_accepted T rs) [2..<k])).
              vset (tri_verts f) = vset (fan_verts rs k)) = (?inT \<or> ?acc_earlier)"
  proof
    assume "\<exists>f \<in> set (T @ map (fan_tri mid rs) (filter (fan_accepted T rs) [2..<k])).
              vset (tri_verts f) = vset (fan_verts rs k)"
    then obtain f where f: "f \<in> set T \<or> f \<in> fan_tri mid rs ` set (filter (fan_accepted T rs) [2..<k])"
      and v: "vset (tri_verts f) = vset (fan_verts rs k)" by auto
    from f show "?inT \<or> ?acc_earlier"
    proof
      assume "f \<in> set T"
      with v show ?thesis by blast
    next
      assume "f \<in> fan_tri mid rs ` set (filter (fan_accepted T rs) [2..<k])"
      then obtain j where "j \<in> {2..<k}" "fan_accepted T rs j" "f = fan_tri mid rs j" by auto
      with v have "j \<in> {2..<k} \<and> fan_accepted T rs j \<and>
                   vset (fan_verts rs j) = vset (fan_verts rs k)" by simp
      then show ?thesis by blast
    qed
  next
    assume "?inT \<or> ?acc_earlier"
    then show "\<exists>f \<in> set (T @ map (fan_tri mid rs) (filter (fan_accepted T rs) [2..<k])).
              vset (tri_verts f) = vset (fan_verts rs k)"
    proof
      assume ?inT
      then obtain f where "f \<in> set T" "vset (tri_verts f) = vset (fan_verts rs k)" by blast
      then show ?thesis by auto
    next
      assume ?acc_earlier
      then obtain j where j: "j \<in> {2..<k}" "fan_accepted T rs j"
        "vset (fan_verts rs j) = vset (fan_verts rs k)" by blast
      then have "fan_tri mid rs j \<in> set (T @ map (fan_tri mid rs) (filter (fan_accepted T rs) [2..<k]))"
        by simp
      moreover from j have "vset (tri_verts (fan_tri mid rs j)) = vset (fan_verts rs k)" by simp
      ultimately show ?thesis by (rule rev_bexI)
    qed
  qed
  have "faces_new_raises (T @ map (fan_tri mid rs) (filter (fan_accepted T rs) [2..<k]))
           (fan_verts rs k) =
        (?deg \<or> (\<exists>f \<in> set (T @ map (fan_tri mid rs) (filter (fan_accepted T rs) [2..<k])).
              vset (tri_verts f) = vset (fan_verts rs k)))"
    by (simp add: faces_new_raises_def abc list_ex_iff)
  also have "\<dots> = (?deg \<or> ?inT \<or> ?acc_earlier)"
    by (simp only: M)
  also have "\<dots> = (?deg \<or> ?inT \<or> ?earlier)"
    using key by blast
  also have "\<dots> = (\<not> fan_accepted T rs k)"
    by (auto simp: fan_accepted_def abc list_ex_iff)
  finally show ?thesis .
qed

lemma fan_loop_filter:
  assumes "2 \<le> k" and "k \<le> n" and "n \<le> length rs"
    and "\<forall>r \<in> set rs. fst r < nverts"
  shows "fan_loop nverts mid rs [k..<n]
           (T @ map (fan_tri mid rs) (filter (fan_accepted T rs) [2..<k])) =
         Inr (T @ map (fan_tri mid rs) (filter (fan_accepted T rs) [2..<n]))"
  using assms
proof (induction "n - k" arbitrary: k)
  case 0
  then show ?case by simp
next
  case (Suc d)
  let ?M = "T @ map (fan_tri mid rs) (filter (fan_accepted T rs) [2..<k])"
  from Suc have kn: "k < n" by simp
  with Suc.prems have in_range: "0 < length rs" "k - 1 < length rs" "k < length rs" by auto
  with Suc.prems(4) have r: "fst (rs ! 0) < nverts" "fst (rs ! (k - 1)) < nverts"
    "fst (rs ! k) < nverts" by simp_all
  from raises_iff_not_accepted [OF Suc.prems(1), of T mid rs]
  have acc: "faces_new_raises ?M (fst (rs ! 0), fst (rs ! (k - 1)), fst (rs ! k)) =
               (\<not> fan_accepted T rs k)"
    by (simp add: fan_verts_def)
  have step: "new_tri nverts mid (rs ! 0) (rs ! (k - 1)) (rs ! k) ?M =
                Inr (if fan_accepted T rs k then ?M @ [fan_tri mid rs k] else ?M)"
    using r acc by (simp add: new_tri_result fan_tri_def)
  from Suc.prems(1) have upt: "[2..<Suc k] = [2..<k] @ [k]" by simp
  have next_mesh: "(if fan_accepted T rs k then ?M @ [fan_tri mid rs k] else ?M) =
        T @ map (fan_tri mid rs) (filter (fan_accepted T rs) [2..<Suc k])"
    unfolding upt by simp
  have "fan_loop nverts mid rs [Suc k..<n]
          (T @ map (fan_tri mid rs) (filter (fan_accepted T rs) [2..<Suc k])) =
        Inr (T @ map (fan_tri mid rs) (filter (fan_accepted T rs) [2..<n]))"
  proof (rule Suc.hyps(1))
    from Suc.hyps(2) show "d = n - Suc k" by simp
    from Suc.prems(1) show "2 \<le> Suc k" by simp
    from kn show "Suc k \<le> n" by simp
    from Suc.prems(3) show "n \<le> length rs" .
    from Suc.prems(4) show "\<forall>r \<in> set rs. fst r < nverts" .
  qed
  with kn step next_mesh show ?case
    by (simp add: upt_conv_Cons del: upt_Suc)
qed

lemma fan_loop_result:
  "(if \<forall>i \<in> set is. fst (rs ! 0) < nverts \<and> fst (rs ! (i - 1)) < nverts \<and> fst (rs ! i) < nverts
    then \<exists>T'. fan_loop nverts mid rs is T = Inr T'
    else fan_loop nverts mid rs is T = Inl IndexError)"
proof (induction "is" arbitrary: T)
  case Nil
  then show ?case by simp
next
  case (Cons i "is")
  show ?case
  proof (cases "fst (rs ! 0) < nverts \<and> fst (rs ! (i - 1)) < nverts \<and> fst (rs ! i) < nverts")
    case False
    then show ?thesis by (auto simp: new_tri_result)
  next
    case True
    then obtain T1 where "new_tri nverts mid (rs ! 0) (rs ! (i - 1)) (rs ! i) T = Inr T1"
      by (simp add: new_tri_result)
    with True Cons.IH [of T1] show ?thesis by simp
  qed
qed

lemma fan_corners:
  assumes "3 \<le> length rs"
  shows "(\<forall>i \<in> set [2..<length rs]. P (rs ! 0) \<and> P (rs ! (i - 1)) \<and> P (rs ! i)) =
         (\<forall>r \<in> set rs. P r)"
proof
  assume l: "\<forall>i \<in> set [2..<length rs]. P (rs ! 0) \<and> P (rs ! (i - 1)) \<and> P (rs ! i)"
  show "\<forall>r \<in> set rs. P r"
  proof
    fix r
    assume "r \<in> set rs"
    then obtain j where j: "j < length rs" "r = rs ! j" by (auto simp: in_set_conv_nth)
    show "P r"
    proof (cases "j < 2")
      case True
      from assms have "2 \<in> set [2..<length rs]" by simp
      with l have "P (rs ! 0) \<and> P (rs ! (2 - 1)) \<and> P (rs ! 2)" by (rule bspec)
      moreover from True have "j = 0 \<or> j = 1" by auto
      ultimately show ?thesis using j by auto
    next
      case False
      with j have "j \<in> set [2..<length rs]" by simp
      with l have "P (rs ! 0) \<and> P (rs ! (j - 1)) \<and> P (rs ! j)" by (rule bspec)
      with j show ?thesis by simp
    qed
  qed
next
  assume r: "\<forall>r \<in> set rs. P r"
  show "\<forall>i \<in> set [2..<length rs]. P (rs ! 0) \<and> P (rs ! (i - 1)) \<and> P (rs ! i)"
  proof
    fix i
    assume "i \<in> set [2..<length rs]"
    then have "0 < length rs" "i - 1 < length rs" "i < length rs" by auto
    with r show "P (rs ! 0) \<and> P (rs ! (i - 1)) \<and> P (rs ! i)" by simp
  qed
qed

lemma triangulate_face_result:
  "(if 3 \<le> length (refs face) \<longrightarrow> (\<forall>r \<in> set (refs face). fst r < nverts)
    then \<exists>T'. triangulate_face nverts index_of face T = Inr T'
    else triangulate_face nverts index_of face T = Inl IndexError)"
proof (cases "length (refs face) < 3")
  case True
  then show ?thesis by (simp add: triangulate_face_def)
next
  case False
  then have 3: "3 \<le> length (refs face)" by simp
  from fan_corners [OF 3, of "\<lambda>r. fst r < nverts"]
    fan_loop_result [of "[2..<length (refs face)]" "refs face" nverts
      "case index_of (tex face) of None \<Rightarrow> 0 | Some i \<Rightarrow> i" T]
  show ?thesis using False 3
    by (simp add: triangulate_face_def del: set_upt)
qed

lemma triangulate_result:
  "(if \<forall>face \<in> set fs. 3 \<le> length (refs face) \<longrightarrow> (\<forall>r \<in> set (refs face). fst r < nverts)
    then \<exists>T'. triangulate nverts index_of fs T = Inr T'
    else triangulate nverts index_of fs T = Inl IndexError)"
proof (induction fs arbitrary: T)
  case Nil
  then show ?case by simp
next
  case (Cons face fs)
  show ?case
  proof (cases "3 \<le> length (refs face) \<longrightarrow> (\<forall>r \<in> set (refs face). fst r < nverts)")
    case False
    with triangulate_face_result [of face nverts index_of T]
    have "triangulate_face nverts index_of face T = Inl IndexError" by simp
    with False show ?thesis by auto
  next
    case True
    with triangulate_face_result [of face nverts index_of T]
    obtain T1 where "triangulate_face nverts index_of face T = Inr T1" by auto
    with True Cons.IH [of T1] show ?thesis by simp
  qed
qed

lemma build_mesh_result:
  "(if buildable g then \<exists>ob. fst (build_mesh uniq g scale st) = Inr ob
    else fst (build_mesh uniq g scale st) = Inl IndexError)"
proof -
  obtain c db where st: "st = (c, db)" by (cases st)
  obtain c' db' obm where f: "foldl (ensure_material uniq) (c, db, []) (faces g) = (c', db', obm)"
    by (cases "foldl (ensure_material uniq) (c, db, []) (faces g)") auto
  note t = triangulate_result [of "faces g" "length (verts g)" "mat_index_of obm" "[]"]
  show ?thesis
  proof (cases "buildable g")
    case True
    with t obtain T' where
      "triangulate (length (verts g)) (mat_index_of obm) (faces g) [] = Inr T'"
      by (auto simp: buildable_def)
    with True show ?thesis by (simp add: build_mesh_def st f Let_def)
  next
    case False
    with t have "triangulate (length (verts g)) (mat_index_of obm) (faces g) [] = Inl IndexError"
      by (simp add: buildable_def)
    with False show ?thesis by (simp add: build_mesh_def st f Let_def)
  qed
qed

lemma import_one_step:
  "imported (import_one u uniq fs scale y_up b p) =
     imported b + (if import_error u fs p = None then 1 else 0) \<and>
   errors (import_one u uniq fs scale y_up b p) =
     errors b @ (case import_error u fs p of None \<Rightarrow> [] | Some e \<Rightarrow> [(p, e)]) \<and>
   length (linked (import_one u uniq fs scale y_up b p)) =
     length (linked b) + (if import_error u fs p = None then 1 else 0)"
proof (cases "parse_geo_classic u fs p")
  case (Inl e)
  then show ?thesis by (simp add: import_one_def import_error_def)
next
  case (Inr g)
  obtain res c db where bm: "build_mesh uniq g scale (mat_cache b, bpy_materials b) = (res, c, db)"
    by (cases "build_mesh uniq g scale (mat_cache b, bpy_materials b)") auto
  from build_mesh_result [of g uniq scale "(mat_cache b, bpy_materials b)"]
  have "if buildable g then \<exists>ob. res = Inr ob else res = Inl IndexError"
    unfolding bm by (cases "buildable g") simp_all
  with Inr bm show ?thesis
    by (cases "buildable g") (auto simp: import_one_def import_error_def)
qed

lemma import_all:
  "imported (foldl (import_one u uniq fs scale y_up) b ps) =
     imported b + length (filter (\<lambda>p. import_error u fs p = None) ps) \<and>
   errors (foldl (import_one u uniq fs scale y_up) b ps) =
     errors b @ List.map_filter (\<lambda>p. map_option (Pair p) (import_error u fs p)) ps \<and>
   length (linked (foldl (import_one u uniq fs scale y_up) b ps)) =
     length (linked b) + length (filter (\<lambda>p. import_error u fs p = None) ps)"
proof (induction ps arbitrary: b)
  case Nil
  then show ?case by (simp add: List.map_filter_simps)
next
  case (Cons p ps)
  from Cons.IH [of "import_one u uniq fs scale y_up b p"] import_one_step [of u uniq fs scale y_up b p]
  show ?case
    by (cases "import_error u fs p") (simp_all add: List.map_filter_simps)
qed

text \<open>The cache and the host's materials of a batch are those of the sequence of its
  build calls, from the empty cache.\<close>

lemma import_one_cache:
  "(mat_cache (import_one u uniq fs scale y_up b p), bpy_materials (import_one u uniq fs scale y_up b p)) =
     build_calls uniq (decoded u fs scale [p]) (mat_cache b, bpy_materials b)"
proof (cases "parse_geo_classic u fs p")
  case (Inl e)
  then show ?thesis by (simp add: import_one_def decoded_def List.map_filter_simps)
next
  case (Inr g)
  obtain res c db where bm: "build_mesh uniq g scale (mat_cache b, bpy_materials b) = (res, c, db)"
    by (cases "build_mesh uniq g scale (mat_cache b, bpy_materials b)") auto
  with Inr show ?thesis
    by (cases res) (simp_all add: import_one_def decoded_def List.map_filter_simps)
qed

lemma decoded_Cons: "decoded u fs scale (p # ps) = decoded u fs scale [p] @ decoded u fs scale ps"
  by (simp add: decoded_def List.map_filter_simps split: sum.splits)

lemma import_all_cache:
  "(mat_cache (foldl (import_one u uniq fs scale y_up) b ps),
    bpy_materials (foldl (import_one u uniq fs scale y_up) b ps)) =
     build_calls uniq (decoded u fs scale ps) (mat_cache b, bpy_materials b)"
proof (induction ps arbitrary: b)
  case Nil
  then show ?case by (simp add: decoded_def List.map_filter_simps)
next
  case (Cons p ps)
  from Cons.IH [of "import_one u uniq fs scale y_up b p"] import_one_cache [of u uniq fs scale y_up b p]
  show ?case
    by (simp add: decoded_Cons [of u fs scale p ps] build_calls_append)
qed

lemma execute_cache:
  "(mat_cache (execute u uniq fs db scale y_up paths),
    bpy_materials (execute u uniq fs db scale y_up paths)) =
     build_calls uniq (decoded u fs scale paths) (Map.empty, db)"
  using import_all_cache [of u uniq fs scale y_up _ paths]
  by (simp add: execute_def)

lemma length_map_filter:
  "length (List.map_filter f xs) + length (filter (\<lambda>x. f x = None) xs) = length xs"
  by (induction xs) (auto simp: List.map_filter_simps split: option.splits)

lemma upt_2_2: "[2..<2] = ([]::nat list)"
  by simp

lemma upt_2_3: "[2..<3] = [2::nat]"
  by (simp add: upt_rec)

lemma upt_2_4: "[2..<4] = [2, 3::nat]"
  by (simp add: upt_rec)

lemma upt_0_3: "[0..<3] = [0, 1, 2::nat]"
  by (simp add: upt_rec)

lemma upt_0_4: "[0..<4] = [0, 1, 2, 3::nat]"
  by (simp add: upt_rec)

lemma upt_2_5: "[2..<5] = [2, 3, 4::nat]"
  by (simp add: upt_rec)

lemmas upt_simps = upt_2_2 upt_2_3 upt_2_4 upt_2_5 upt_0_3 upt_0_4

lemma vset_eq_iff:
  "vset (a, b, c) = vset (i, j, k) \<longleftrightarrow>
     (a = i \<or> a = j \<or> a = k) \<and> (b = i \<or> b = j \<or> b = k) \<and> (c = i \<or> c = j \<or> c = k) \<and>
     (i = a \<or> i = b \<or> i = c) \<and> (j = a \<or> j = b \<or> j = c) \<and> (k = a \<or> k = b \<or> k = c)"
  unfolding vset_def by auto

lemmas build_simps = build_mesh_def Let_def ensure_material_def materials_new_def
  mat_index_of_def triangulate_face_def new_tri_def faces_new_raises_def vset_eq_iff
  fresh_names_def

section \<open>The mesh builder and the batch: claims\<close>

subsection \<open>C6: fan triangulation\<close>

text \<open>
  C6, amended. For every face with corners \<open>[c0, ..., c_{n-1}]\<close> whose vertex indices are
  below the number of vertices when \<open>n \<ge> 3\<close>, the builder appends to the mesh, in order,
  exactly those fan triangles \<open>(c0, c_{i-1}, c_i)\<close>, \<open>i\<close> from 2 to \<open>n - 1\<close>, that the mesh
  accepts: the triangles with three different vertices that lie on the vertices of no
  triangle of the mesh before the face and of no earlier triangle of the fan. Each has
  the material index of the face and the UV pairs of its three corners. A triangle that
  is not accepted is skipped and the fan goes on with the next one. So when every fan
  triangle is accepted, exactly the fan triangles are appended (a quad \<open>[A, B, C, D]\<close>
  gives \<open>(A, B, C)\<close> and \<open>(A, C, D)\<close>), and when \<open>n < 3\<close> nothing is appended, without error.
\<close>

theorem fan_triangulation:
  assumes "3 \<le> length (refs face) \<longrightarrow> (\<forall>r \<in> set (refs face). fst r < nverts)"
    and "mid = (case index_of (tex face) of None \<Rightarrow> 0 | Some i \<Rightarrow> i)"
  shows "triangulate_face nverts index_of face T =
           Inr (T @ map (fan_tri mid (refs face))
                      (filter (fan_accepted T (refs face)) [2..<length (refs face)])) \<and>
         ((\<forall>i \<in> {2..<length (refs face)}. fan_accepted T (refs face) i) \<longrightarrow>
            triangulate_face nverts index_of face T =
              Inr (T @ map (fan_tri mid (refs face)) [2..<length (refs face)]))"
proof -
  have main: "triangulate_face nverts index_of face T =
           Inr (T @ map (fan_tri mid (refs face))
                      (filter (fan_accepted T (refs face)) [2..<length (refs face)]))"
  proof (cases "length (refs face) < 3")
    case True
    then have "[2..<length (refs face)] = []" by simp
    with True show ?thesis by (simp add: triangulate_face_def)
  next
    case False
    with assms(1) have r: "\<forall>r \<in> set (refs face). fst r < nverts" by simp
    from False have 2: "2 \<le> length (refs face)" by simp
    have "fan_loop nverts mid (refs face) [2..<length (refs face)]
            (T @ map (fan_tri mid (refs face)) (filter (fan_accepted T (refs face)) [2..<2])) =
          Inr (T @ map (fan_tri mid (refs face))
                     (filter (fan_accepted T (refs face)) [2..<length (refs face)]))"
      by (rule fan_loop_filter [OF order_refl 2 order_refl r])
    with False assms(2) show ?thesis by (simp add: triangulate_face_def)
  qed
  moreover have "filter (fan_accepted T (refs face)) [2..<length (refs face)] =
                 [2..<length (refs face)]"
    if "\<forall>i \<in> {2..<length (refs face)}. fan_accepted T (refs face) i"
    using that by (intro filter_True) simp
  ultimately show ?thesis by simp
qed

theorem fan_triangulation_witness:
  "length (refs quad_face) = 4 \<and> list_all (\<lambda>r. fst r < 4) (refs quad_face) \<and>
   triangulate_face 4 Map.empty quad_face [] =
     Inr [\<lparr>tri_verts = (0, 1, 2), material_index = 0, smooth = True,
           tri_uvs = ((0, 0), (1, 0), (1, 1))\<rparr>,
         \<lparr>tri_verts = (0, 2, 3), material_index = 0, smooth = True,
           tri_uvs = ((0, 0), (1, 1), (0, 1))\<rparr>] \<and>
   triangulate_face 4 Map.empty (quad_face\<lparr>refs := take 2 (refs quad_face)\<rparr>) [] = Inr [] \<and>
   length (refs skip_face) = 5 \<and> list_all (\<lambda>r. fst r < 4) (refs skip_face) \<and>
   triangulate_face 4 Map.empty skip_face [] =
     Inr [\<lparr>tri_verts = (0, 1, 2), material_index = 0, smooth = True,
           tri_uvs = ((0, 0), (1, 0), (1, 1))\<rparr>,
         \<lparr>tri_verts = (0, 2, 3), material_index = 0, smooth = True,
           tri_uvs = ((0, 0), (1, 1), (0, 1))\<rparr>]"
proof -
  have l: "length (refs quad_face) = 4"
    "length (refs (quad_face\<lparr>refs := take 2 (refs quad_face)\<rparr>)) = 2"
    "length (refs skip_face) = 5"
    by (simp_all add: quad_face_def skip_face_def)
  from fan_triangulation [where face = quad_face and nverts = 4 and T = "[]" and mid = 0
        and index_of = Map.empty]
    fan_triangulation [where face = "quad_face\<lparr>refs := take 2 (refs quad_face)\<rparr>"
        and nverts = 4 and T = "[]" and mid = 0 and index_of = Map.empty]
    fan_triangulation [where face = skip_face and nverts = 4 and T = "[]" and mid = 0
        and index_of = Map.empty]
  show ?thesis
    unfolding l atLeastLessThan_upt upt_simps
    by (simp add: quad_face_def skip_face_def fan_tri_def fan_accepted_def fan_verts_def
          vset_eq_iff upt_simps)
qed

text \<open>
  Against C6 as stated: a face of three corners of which the last two are on the same
  vertex gives no triangle, where the claim has the triangle \<open>(c0, c1, c2)\<close>.
\<close>

theorem fan_triangulation_counterexample:
  "length (refs folded_face) = 3 \<and>
   triangulate_face 2 Map.empty folded_face [] = Inr [] \<and>
   fst (build_mesh fresh_names folded_geo 1 (Map.empty, [])) =
     Inr \<lparr>ob_name = ''Folded'', me_name = ''Folded_Mesh'',
           ob_materials = [\<lparr>mat_id = 0, mat_name = ''chrome01'', use_nodes = True\<rparr>],
           me_verts = [(0, 0, 0), (1, 0, 0)], me_faces = []\<rparr>"
  by (simp add: folded_geo_def folded_face_def build_simps upt_simps)

subsection \<open>C7: the shared material cache\<close>

text \<open>
  C7. For any sequence of build calls on one material cache, from any cache: the cache
  after any number of the calls is contained in the final cache, so an entry, once
  made, is never changed; the final cache has an entry for exactly the names it had at
  the start and the texture names of the faces of the models built, one material for
  each name; the material that the cache gives for the texture name of a face right after
  the call that builds its model is the one that the final cache gives for that name;
  and the materials of every object built are materials of the final cache. The build
  calls of a batch import are such a sequence, from the empty cache (\<open>execute_cache\<close>).
\<close>

theorem shared_material_cache:
  assumes run: "build_calls uniq cs (c0, db0) = (cF, dbF)"
  shows "(\<forall>cs1 cs2. cs = cs1 @ cs2 \<longrightarrow> fst (build_calls uniq cs1 (c0, db0)) \<subseteq>\<^sub>m cF) \<and>
         dom cF = dom c0 \<union> (\<Union>(g, s) \<in> set cs. tex ` set (faces g)) \<and>
         (\<forall>cs1 g s cs2 face. cs = cs1 @ (g, s) # cs2 \<and> face \<in> set (faces g) \<longrightarrow>
            (\<exists>m. fst (build_calls uniq (cs1 @ [(g, s)]) (c0, db0)) (tex face) = Some m \<and>
                 cF (tex face) = Some m)) \<and>
         (\<forall>cs1 g s cs2 ob.
            cs = cs1 @ (g, s) # cs2 \<and>
            fst (build_mesh uniq g s (build_calls uniq cs1 (c0, db0))) = Inr ob \<longrightarrow>
            set (ob_materials ob) \<subseteq> ran cF)"
proof -
  have mono: "fst (build_calls uniq cs1 (c0, db0)) \<subseteq>\<^sub>m cF" if "cs = cs1 @ cs2" for cs1 cs2
  proof -
    obtain c1 db1 where 1: "build_calls uniq cs1 (c0, db0) = (c1, db1)"
      by (cases "build_calls uniq cs1 (c0, db0)") auto
    with run that have "build_calls uniq cs2 (c1, db1) = (cF, dbF)"
      by (simp add: build_calls_append)
    from build_calls_cache [OF this] 1 show ?thesis by simp
  qed
  have same: "\<exists>m. fst (build_calls uniq (cs1 @ [(g, s)]) (c0, db0)) (tex face) = Some m \<and>
                 cF (tex face) = Some m"
    if cs: "cs = cs1 @ (g, s) # cs2" and face: "face \<in> set (faces g)" for cs1 g s cs2 face
  proof -
    obtain c1 db1 where 1: "build_calls uniq (cs1 @ [(g, s)]) (c0, db0) = (c1, db1)"
      by (cases "build_calls uniq (cs1 @ [(g, s)]) (c0, db0)") auto
    from build_calls_cache [OF 1] face have "tex face \<in> dom c1" by auto
    then obtain m where m: "c1 (tex face) = Some m" by auto
    from cs have "cs = (cs1 @ [(g, s)]) @ cs2" by simp
    from mono [OF this] 1 have "c1 \<subseteq>\<^sub>m cF" by simp
    with m have "cF (tex face) = Some m"
      by (metis domI map_le_def)
    with m 1 show ?thesis by simp
  qed
  have obs: "set (ob_materials ob) \<subseteq> ran cF"
    if cs: "cs = cs1 @ (g, s) # cs2"
      and ob: "fst (build_mesh uniq g s (build_calls uniq cs1 (c0, db0))) = Inr ob"
    for cs1 g s cs2 ob
  proof -
    obtain c1 db1 where 1: "build_calls uniq cs1 (c0, db0) = (c1, db1)"
      by (cases "build_calls uniq cs1 (c0, db0)") auto
    obtain res c2 db2 where 2: "build_mesh uniq g s (c1, db1) = (res, c2, db2)"
      by (cases "build_mesh uniq g s (c1, db1)") auto
    with ob 1 have "res = Inr ob" by simp
    with build_mesh_cache [OF 2] have sub: "set (ob_materials ob) \<subseteq> ran c2" by simp
    from 1 2 have 3: "build_calls uniq (cs1 @ [(g, s)]) (c0, db0) = (c2, db2)"
      by (simp add: build_calls_append)
    from cs have "cs = (cs1 @ [(g, s)]) @ cs2" by simp
    from mono [OF this] have "c2 \<subseteq>\<^sub>m cF" by (simp add: 3)
    from ran_mono [OF this] sub show ?thesis by (rule order_trans [rotated])
  qed
  show ?thesis
  proof (intro conjI allI impI)
    fix cs1 cs2
    assume "cs = cs1 @ cs2"
    then show "fst (build_calls uniq cs1 (c0, db0)) \<subseteq>\<^sub>m cF" by (rule mono)
  next
    from build_calls_cache [OF run]
    show "dom cF = dom c0 \<union> (\<Union>(g, s) \<in> set cs. tex ` set (faces g))" by simp
  next
    fix cs1 g s cs2 face
    assume "cs = cs1 @ (g, s) # cs2 \<and> face \<in> set (faces g)"
    then show "\<exists>m. fst (build_calls uniq (cs1 @ [(g, s)]) (c0, db0)) (tex face) = Some m \<and>
                 cF (tex face) = Some m"
      using same [of cs1 g s cs2 face] by simp
  next
    fix cs1 g s cs2 ob
    assume "cs = cs1 @ (g, s) # cs2 \<and>
            fst (build_mesh uniq g s (build_calls uniq cs1 (c0, db0))) = Inr ob"
    then show "set (ob_materials ob) \<subseteq> ran cF"
      using obs [of cs1 g s cs2 ob] by simp
  qed
qed

theorem shared_material_cache_witness:
  "build_calls fresh_names [(quad_geo, 1), (mixed_geo, 2), (quad_geo, 1)] (Map.empty, []) =
     ([''chrome01'' \<mapsto> \<lparr>mat_id = 0, mat_name = ''chrome01'', use_nodes = True\<rparr>,
       ''glass'' \<mapsto> \<lparr>mat_id = 1, mat_name = ''glass'', use_nodes = True\<rparr>],
      [\<lparr>mat_id = 0, mat_name = ''chrome01'', use_nodes = True\<rparr>,
       \<lparr>mat_id = 1, mat_name = ''glass'', use_nodes = True\<rparr>]) \<and>
   quad_face \<in> set (faces mixed_geo) \<and>
   (\<exists>m. fst (build_calls fresh_names ([(quad_geo, 1)] @ [(mixed_geo, 2)]) (Map.empty, []))
          (tex quad_face) = Some m \<and>
        [''chrome01'' \<mapsto> \<lparr>mat_id = 0, mat_name = ''chrome01'', use_nodes = True\<rparr>,
         ''glass'' \<mapsto> \<lparr>mat_id = 1, mat_name = ''glass'', use_nodes = True\<rparr>] (tex quad_face) = Some m)"
proof -
  let ?cF = "[''chrome01'' \<mapsto> \<lparr>mat_id = 0, mat_name = ''chrome01'', use_nodes = True\<rparr>,
              ''glass'' \<mapsto> \<lparr>mat_id = 1, mat_name = ''glass'', use_nodes = True\<rparr>]"
  let ?db = "[\<lparr>mat_id = 0, mat_name = ''chrome01'', use_nodes = True\<rparr>,
              \<lparr>mat_id = 1, mat_name = ''glass'', use_nodes = True\<rparr>]"
  have run: "build_calls fresh_names [(quad_geo, 1), (mixed_geo, 2), (quad_geo, 1)]
               (Map.empty, []) = (?cF, ?db)"
    by (simp add: build_mesh_state quad_geo_def mixed_geo_def quad_face_def
          ensure_material_def materials_new_def fresh_names_def Let_def)
  have face: "quad_face \<in> set (faces mixed_geo)"
    by (simp add: mixed_geo_def)
  note same = shared_material_cache [OF run, THEN conjunct2, THEN conjunct2, THEN conjunct1,
      rule_format, of "[(quad_geo, 1)]" mixed_geo 2 "[(quad_geo, 1)]" quad_face]
  from same face run show ?thesis by simp
qed

subsection \<open>C8: the scale\<close>



subsection \<open>C9: the batch goes on after a failure\<close>

text \<open>
  C9. For every list of paths, the batch import handles every path, whatever happened
  to the paths before it: the number of files imported and the number of entries of the
  error list add up to the number of paths; the files imported are those that decode
  and build; the error list holds, in the order of the paths, one entry for each path
  that fails, the path with its exception; an error of the decoder is recorded with
  its path; and one object is linked for each file imported.
\<close>

theorem batch_continues:
  fixes scale :: "'f::times"
  assumes "b = execute u uniq fs db scale y_up paths"
  shows "imported b + length (errors b) = length paths \<and>
         imported b = length (filter (\<lambda>p. import_error u fs p = None) paths) \<and>
         errors b = List.map_filter (\<lambda>p. map_option (Pair p) (import_error u fs p)) paths \<and>
         map fst (errors b) = filter (\<lambda>p. import_error u fs p \<noteq> None) paths \<and>
         (\<forall>p \<in> set paths. \<forall>e. parse_geo_classic u fs p = Inl e \<longrightarrow> (p, e) \<in> set (errors b)) \<and>
         length (linked b) = imported b"
proof -
  let ?f = "\<lambda>p. map_option (Pair p) (import_error u fs p)"
  from assms import_all [of u uniq fs scale y_up _ paths]
  have i: "imported b = length (filter (\<lambda>p. import_error u fs p = None) paths)"
    and e: "errors b = List.map_filter ?f paths"
    and l: "length (linked b) = length (filter (\<lambda>p. import_error u fs p = None) paths)"
    by (simp_all add: execute_def)
  have "length (List.map_filter ?f paths) + length (filter (\<lambda>p. ?f p = None) paths) = length paths"
    by (rule length_map_filter)
  with i e have total: "imported b + length (errors b) = length paths" by simp
  have names: "map fst (List.map_filter ?f ps) = filter (\<lambda>p. import_error u fs p \<noteq> None) ps" for ps
    by (induction ps) (auto simp: List.map_filter_simps)
  have dec: "(p, e') \<in> set (List.map_filter ?f paths)"
    if "p \<in> set paths" "parse_geo_classic u fs p = Inl e'" for p e'
    using that by (auto simp: List.map_filter_def import_error_def intro!: image_eqI [of _ _ p])
  from total i e l names dec show ?thesis by simp
qed

theorem batch_continues_witness:
  "imported (execute le_nat fresh_names three_files [] 1 False
               [''a.geo'', ''b.geo'', ''c.geo'']) = 2 \<and>
   errors (execute le_nat fresh_names three_files [] 1 False
             [''a.geo'', ''b.geo'', ''c.geo'']) = [(''b.geo'', StructError)] \<and>
   length (linked (execute le_nat fresh_names three_files [] 1 False
                     [''a.geo'', ''b.geo'', ''c.geo''])) = 2"
proof -
  have a: "import_error le_nat three_files ''a.geo'' = None"
    by (simp add: import_error_def parse_geo_classic_def three_files_def corner_file_def
          eval_simps enc_corner_def buildable_def del: repeat.simps)
  have b: "import_error le_nat three_files ''b.geo'' = Some StructError"
    by (simp add: import_error_def parse_geo_classic_def three_files_def corner_file_def
          eval_simps enc_corner_def butlast_append del: repeat.simps)
  have c: "import_error le_nat three_files ''c.geo'' = None"
    by (simp add: import_error_def parse_geo_classic_def three_files_def tiny_file_def
          eval_simps buildable_def del: repeat.simps)
  from batch_continues [OF refl, of le_nat fresh_names three_files "[]" 1 False
      "[''a.geo'', ''b.geo'', ''c.geo'']"] a b c
  show ?thesis by (simp add: List.map_filter_simps)
qed

subsection \<open>C1: a vertex index out of range\<close>

text \<open>
  C1 does not hold of the source. The file \<open>oob_file\<close> has three vertices and one face
  with the corners 0, 1, 2 and 3, the last index being the number of vertices. It
  decodes; its build raises \<^verbatim>\<open>IndexError\<close> at \<^verbatim>\<open>verts[c[0]]\<close>, which the handler of
  \<^verbatim>\<open>ValueError\<close> around the triangle does not catch, so no object is returned, although
  the triangle \<open>(0, 1, 2)\<close> is valid; and the batch counts no file imported and records
  the path with the error. In general the build of a model returns an object exactly when
  every corner of every face of three corners or more has its vertex index in range, and
  raises \<^verbatim>\<open>IndexError\<close> otherwise (\<open>build_mesh_result\<close>).
\<close>

theorem index_out_of_range_fails_file:
  "parse_bytes le_nat ''oob.geo'' oob_file = Inr oob_geo \<and>
   fst (build_mesh fresh_names oob_geo 1 (Map.empty, [])) = Inl IndexError \<and>
   imported (execute le_nat fresh_names [''oob.geo'' \<mapsto> oob_file] [] 1 False [''oob.geo'']) = 0 \<and>
   errors (execute le_nat fresh_names [''oob.geo'' \<mapsto> oob_file] [] 1 False [''oob.geo'']) =
     [(''oob.geo'', IndexError)]"
proof -
  have p: "parse_bytes le_nat ''oob.geo'' oob_file = Inr oob_geo"
    by (simp add: oob_file_def oob_geo_def eval_simps enc_corner_def enc_vec3_def upt_simps
          del: repeat.simps)
  have b: "fst (build_mesh fresh_names oob_geo 1 (Map.empty, [])) = Inl IndexError"
    by (simp add: oob_geo_def build_simps upt_simps)
  have e: "import_error le_nat [''oob.geo'' \<mapsto> oob_file] ''oob.geo'' = Some IndexError"
    by (simp add: import_error_def parse_geo_classic_def p) (simp add: oob_geo_def buildable_def)
  from import_all [of le_nat fresh_names "[''oob.geo'' \<mapsto> oob_file]" 1 False _ "[''oob.geo'']"] e
  have "imported (execute le_nat fresh_names [''oob.geo'' \<mapsto> oob_file] [] 1 False [''oob.geo'']) = 0"
    and "errors (execute le_nat fresh_names [''oob.geo'' \<mapsto> oob_file] [] 1 False [''oob.geo'']) =
     [(''oob.geo'', IndexError)]"
    by (simp_all add: execute_def List.map_filter_simps)
  with p b show ?thesis by simp
qed

end
